theory Spec2Isabelle
  imports Main "HOL-Library.Word" "HOL-Library.Sublist"
begin

unbundle bit_operations_syntax

section \<open>JavaScript numbers, strings and the 32-bit bitwise operators\<close>

text \<open>
  The numbers the templates compute with are integer-valued; they are modelled as \<open>int\<close>.
  The bitwise operators of JavaScript first convert their operands with ToInt32 (the value
  modulo \<open>2^32\<close>, read as two's complement) and yield an int32 again; a shift uses the
  low five bits of its count.
\<close>

definition ToInt32 :: "int \<Rightarrow> int" where
  "ToInt32 x = signed_take_bit 31 x"

definition js_and :: "int \<Rightarrow> int \<Rightarrow> int" where
  "js_and a b = ToInt32 a AND ToInt32 b"

definition js_or :: "int \<Rightarrow> int \<Rightarrow> int" where
  "js_or a b = ToInt32 a OR ToInt32 b"

definition js_not :: "int \<Rightarrow> int" where
  "js_not a = NOT (ToInt32 a)"

definition js_shl :: "int \<Rightarrow> int \<Rightarrow> int" where
  "js_shl a k = ToInt32 (push_bit (nat (k mod 32)) (ToInt32 a))"

definition js_sar :: "int \<Rightarrow> int \<Rightarrow> int" where
  "js_sar a k = drop_bit (nat (k mod 32)) (ToInt32 a)"

text \<open>\<open>String.prototype.slice\<close>: a negative index counts from the end, both are clamped.\<close>

definition js_slice :: "string \<Rightarrow> int \<Rightarrow> int \<Rightarrow> string" where
  "js_slice s start fin =
     (let len = int (length s);
          from = (if start < 0 then max (len + start) 0 else min start len);
          to = (if fin < 0 then max (len + fin) 0 else min fin len)
      in take (nat (to - from)) (drop (nat from) s))"

definition startsWith :: "string \<Rightarrow> string \<Rightarrow> bool" where
  "startsWith s p = (take (length p) s = p)"

definition endsWith :: "string \<Rightarrow> string \<Rightarrow> bool" where
  "endsWith s p = (length p \<le> length s \<and> drop (length s - length p) s = p)"

text \<open>
  \<open>parseInt(s, 16)\<close>: leading white space, an optional sign and an optional \<open>0x\<close> are
  skipped, then the longest run of hexadecimal digits is read; without a digit the result
  is NaN, here \<open>None\<close>. \<open>decodeBlockHeight\<close> applies it to at most two characters, so
  the value is below 256 and no rounding to a double occurs.
\<close>

definition hexval :: "char \<Rightarrow> int option" where
  "hexval c =
     (let k = of_char c :: nat in
      if 48 \<le> k \<and> k \<le> 57 then Some (int k - 48)
      else if 97 \<le> k \<and> k \<le> 102 then Some (int k - 87)
      else if 65 \<le> k \<and> k \<le> 70 then Some (int k - 55)
      else None)"

definition is_space :: "char \<Rightarrow> bool" where
  "is_space c = (of_char c \<in> {9, 10, 11, 12, 13, 32, 160 :: nat})"

definition hexdigits_value :: "string \<Rightarrow> int" where
  "hexdigits_value ds = foldl (\<lambda>acc c. 16 * acc + (case hexval c of Some v \<Rightarrow> v | None \<Rightarrow> 0)) 0 ds"

definition parseInt16 :: "string \<Rightarrow> int option" where
  "parseInt16 s =
     (let s1 = dropWhile is_space s;
          neg = (s1 \<noteq> [] \<and> hd s1 = CHR ''-'');
          s2 = (if s1 \<noteq> [] \<and> (hd s1 = CHR ''-'' \<or> hd s1 = CHR ''+'') then tl s1 else s1);
          s3 = (if take 2 s2 = ''0x'' \<or> take 2 s2 = ''0X'' then drop 2 s2 else s2);
          ds = takeWhile (\<lambda>c. hexval c \<noteq> None) s3
      in if ds = [] then None
         else Some (if neg then - hexdigits_value ds else hexdigits_value ds))"

section \<open>Scripts, chunks and their hexadecimal form\<close>

text \<open>
  A script chunk of the SDK is \<open>{ op: number, data?: number[] }\<close>. A script is
  represented by its bytes; \<open>toHex\<close> writes two lower-case hexadecimal digits per byte.
  The SDK's writer puts the opcode byte and, for a push opcode below \<open>OP_PUSHDATA1\<close>,
  the data right after it; its reader takes an opcode from \<open>0x01\<close> to \<open>0x4b\<close> as a
  push of that many bytes. Only such chunks occur in the Lock template.
\<close>

type_synonym byte = "8 word"

record chunk =
  op :: int
  data :: "int list option"

definition hexchars :: string where
  "hexchars = ''0123456789abcdef''"

definition byte_hex :: "byte \<Rightarrow> string" where
  "byte_hex b = [hexchars ! (unat b div 16), hexchars ! (unat b mod 16)]"

definition toHex :: "byte list \<Rightarrow> string" where
  "toHex bs = concat (map byte_hex bs)"

fun hex_pairs :: "string \<Rightarrow> int list" where
  "hex_pairs (a # b # rest) =
     (16 * (case hexval a of Some v \<Rightarrow> v | None \<Rightarrow> 0) + (case hexval b of Some v \<Rightarrow> v | None \<Rightarrow> 0))
       # hex_pairs rest"
| "hex_pairs _ = []"

text \<open>
  \<open>Utils.toArray(s, 'hex')\<close>: two digits make a byte, a string of odd length gets a
  leading \<open>0\<close>. The template applies it to slices of \<open>toHex\<close> output only, which hold
  nothing but hexadecimal digits; any other character counts as the digit 0 here.
\<close>

definition toArray_hex :: "string \<Rightarrow> int list" where
  "toArray_hex s = hex_pairs (if odd (length s) then CHR ''0'' # s else s)"

definition chunk_bytes :: "chunk \<Rightarrow> byte list" where
  "chunk_bytes c =
     word_of_int (op c) # (case data c of None \<Rightarrow> [] | Some d \<Rightarrow> map word_of_int d)"

definition Script_toBinary :: "chunk list \<Rightarrow> byte list" where
  "Script_toBinary cs = concat (map chunk_bytes cs)"

fun parse_chunks :: "byte list \<Rightarrow> chunk list" where
  "parse_chunks [] = []"
| "parse_chunks (b # rest) =
     (if 0 < unat b \<and> unat b < 0x4c
      then \<lparr>op = uint b, data = Some (map uint (take (unat b) rest))\<rparr> # parse_chunks (drop (unat b) rest)
      else \<lparr>op = uint b, data = None\<rparr> # parse_chunks rest)"

definition Script_fromHex :: "string \<Rightarrow> chunk list" where
  "Script_fromHex s = parse_chunks (map word_of_int (toArray_hex s))"

section \<open>The Lock template\<close>

datatype error = Error string

definition LOCK_PREFIX :: string where
  "LOCK_PREFIX = ''20d37f4de0d1c735b4d51a5572df0f3d9104d1d9e99db8694fdd1b1a92e1f0dce1757601687f76a9''"

definition LOCK_SUFFIX :: string where
  "LOCK_SUFFIX = ''88ac7e7601207f75a9011488''"

record LockDecoded =
  pkh :: "int list"
  until :: int

subsection \<open>The number codec\<close>

function encodeBlockHeight_loop :: "int \<Rightarrow> int list \<Rightarrow> int list" where
  "encodeBlockHeight_loop n bytes =
     (if n > 0 then encodeBlockHeight_loop (js_sar n 8) (bytes @ [js_and n 0xff]) else bytes)"
  by pat_completeness auto

lemma js_sar_8_less: "0 < n \<Longrightarrow> js_sar n 8 < n"
proof -
  assume pos: "0 < n"
  have le: "ToInt32 n \<le> n"
  proof (cases "n < 2 ^ 31")
    case True
    with pos have "signed_take_bit 31 n = n"
      by (intro signed_take_bit_int_eq_self) auto
    then show ?thesis by (simp add: ToInt32_def)
  next
    case False
    have "signed_take_bit 31 n < (2 ^ 31 :: int)"
      by (rule signed_take_bit_int_less_exp)
    with False show ?thesis by (simp add: ToInt32_def)
  qed
  have "js_sar n 8 = ToInt32 n div 256"
    by (simp add: js_sar_def drop_bit_eq_div)
  also have "\<dots> < n"
  proof (cases "0 < ToInt32 n")
    case True
    then have "ToInt32 n div 256 < ToInt32 n" by simp
    with le show ?thesis by simp
  next
    case False
    then have "ToInt32 n div 256 \<le> 0"
      by (simp add: div_int_pos_iff linorder_not_less)
    with pos show ?thesis by simp
  qed
  finally show ?thesis .
qed

termination encodeBlockHeight_loop
  by (relation "measure (\<lambda>(n, bytes). nat n)") (auto simp: js_sar_8_less)

declare encodeBlockHeight_loop.simps [simp del]

definition encodeBlockHeight :: "int \<Rightarrow> chunk list" where
  "encodeBlockHeight height =
     (if height = 0 then [\<lparr>op = 0, data = None\<rparr>]
      else if height \<ge> 1 \<and> height \<le> 16 then [\<lparr>op = 0x50 + height, data = None\<rparr>]
      else if height = - 1 then [\<lparr>op = 0x4f, data = None\<rparr>]
      else
        let negative = height < 0;
            n = (if negative then - height else height);
            bytes = encodeBlockHeight_loop n [];
            top = (if bytes = [] then 0 else last bytes);
            bytes' =
              (if js_and top 0x80 \<noteq> 0 then bytes @ [if negative then 0x80 else 0x00]
               else if negative \<and> bytes \<noteq> [] then bytes[length bytes - 1 := js_or top 0x80]
               else bytes)
        in [\<lparr>op = int (length bytes'), data = Some bytes'\<rparr>])"

function decodeBlockHeight_loop :: "int list \<Rightarrow> nat \<Rightarrow> int \<Rightarrow> int" where
  "decodeBlockHeight_loop bytes i result =
     (if i < length bytes
      then decodeBlockHeight_loop bytes (i + 1) (js_or result (js_shl (bytes ! i) (8 * int i)))
      else result)"
  by pat_completeness auto
termination
  by (relation "measure (\<lambda>(bytes, i, result). length bytes - i)") auto

declare decodeBlockHeight_loop.simps [simp del]

definition decodeBlockHeight :: "string \<Rightarrow> int" where
  "decodeBlockHeight hex =
     (if length hex = 0 then 0
      else case parseInt16 (js_slice hex 0 2) of
        None \<Rightarrow> 0
      | Some opcode \<Rightarrow>
          if opcode = 0 then 0
          else if opcode \<ge> 0x51 \<and> opcode \<le> 0x60 then opcode - 0x50
          else if opcode = 0x4f then - 1
          else
            let dataHex = js_slice hex 2 (2 + opcode * 2);
                bytes = toArray_hex dataHex
            in if length bytes = 0 then 0
               else
                 let result = decodeBlockHeight_loop bytes 0 0
                 in if js_and (bytes ! (length bytes - 1)) 0x80 \<noteq> 0
                    then - js_and result (js_not (js_shl 0x80 (8 * (int (length bytes) - 1))))
                    else result)"

subsection \<open>Recognising, decoding and building a Lock script\<close>

definition isLock :: "byte list \<Rightarrow> bool" where
  "isLock script =
     (let hex = toHex script
      in startsWith hex LOCK_PREFIX \<and> endsWith hex LOCK_SUFFIX)"

definition Lock_decode :: "byte list \<Rightarrow> error + LockDecoded" where
  "Lock_decode script =
     (if \<not> isLock script then Inl (Error ''Script is not a valid Lock script'')
      else
        let hex = toHex script;
            pkhOpcodeStart = int (length LOCK_PREFIX);
            pkhDataStart = pkhOpcodeStart + 2;
            pkhHex = js_slice hex pkhDataStart (pkhDataStart + 40);
            pkh = toArray_hex pkhHex;
            untilStart = pkhDataStart + 40;
            suffixStart = int (length hex) - int (length LOCK_SUFFIX);
            untilHex = js_slice hex untilStart suffixStart;
            until = decodeBlockHeight untilHex
        in Inr \<lparr>pkh = pkh, until = until\<rparr>)"

text \<open>
  \<open>lock\<close> reads the public key hash out of the address with the SDK's
  \<open>Utils.fromBase58Check\<close>, which is a parameter here (it throws on a malformed address).
\<close>

definition lock :: "(string \<Rightarrow> error + int list) \<Rightarrow> string \<Rightarrow> int \<Rightarrow> error + byte list" where
  "lock fromBase58Check address until' =
     (case fromBase58Check address of
        Inl e \<Rightarrow> Inl e
      | Inr pkh' \<Rightarrow>
          Inr (Script_toBinary
                 (Script_fromHex LOCK_PREFIX
                  @ [\<lparr>op = 20, data = Some pkh'\<rparr>]
                  @ encodeBlockHeight until'
                  @ Script_fromHex LOCK_SUFFIX)))"

definition LOCK_PREFIX_bytes :: "byte list" where
  "LOCK_PREFIX_bytes = map word_of_int (toArray_hex LOCK_PREFIX)"

definition LOCK_SUFFIX_bytes :: "byte list" where
  "LOCK_SUFFIX_bytes = map word_of_int (toArray_hex LOCK_SUFFIX)"

subsection \<open>Little-endian byte strings\<close>

text \<open>
  The value of a little-endian byte string, the minimal little-endian bytes of a magnitude,
  and the payload the specification describes for a data push: the magnitude's bytes, one
  more \<open>0x00\<close> byte when the top byte has its high bit set, and the high bit of the final
  byte set for a negative number.
\<close>

fun le_value :: "int list \<Rightarrow> int" where
  "le_value [] = 0"
| "le_value (b # bs) = b + 256 * le_value bs"

fun le_bytes :: "nat \<Rightarrow> int list" where
  "le_bytes m = (if m = 0 then [] else int (m mod 256) # le_bytes (m div 256))"

declare le_bytes.simps [simp del]

definition is_bytes :: "int list \<Rightarrow> bool" where
  "is_bytes bs = list_all (\<lambda>b. 0 \<le> b \<and> b < 256) bs"

definition spec_push_payload :: "int list \<Rightarrow> bool \<Rightarrow> int list" where
  "spec_push_payload magnitude negative =
     (let extended = (if last magnitude \<ge> 0x80 then magnitude @ [0x00] else magnitude)
      in if negative then butlast extended @ [last extended OR 0x80] else extended)"

text \<open>
  A stand-in for \<open>Utils.fromBase58Check\<close> that knows one address, the one of the
  repository's tests, and its 20-byte public key hash.
\<close>

definition testAddress :: string where
  "testAddress = ''1A1zP1eP5QGefi2DMPTfTL5SLmv7DivfNa''"

definition test_fromBase58Check :: "string \<Rightarrow> error + int list" where
  "test_fromBase58Check a =
     (if a = testAddress
      then Inr [98, 233, 7, 177, 92, 191, 39, 213, 66, 83, 153, 235, 246, 240, 251, 80, 235, 184,
                143, 24]
      else Inl (Error ''Invalid checksum''))"

text \<open>The Lock script of the test address for height 800000, byte by byte.\<close>

definition lock_800000 :: "byte list" where
  "lock_800000 =
     LOCK_PREFIX_bytes
     @ [20, 98, 233, 7, 177, 92, 191, 39, 213, 66, 83, 153, 235, 246, 240, 251, 80, 235, 184, 143, 24]
     @ [3, 0, 53, 12]
     @ LOCK_SUFFIX_bytes"

section \<open>The SIGMA template\<close>

definition SIGMA_PREFIX :: string where
  "SIGMA_PREFIX = ''SIGMA''"

text \<open>
  \<open>Algorithm\<close> is the string enum of the sigma-protocol package; \<open>decode\<close> casts any
  decoded string to it, so the field is a string here.
\<close>

definition Algorithm_BSM :: string where
  "Algorithm_BSM = ''BSM''"

definition Algorithm_BRC77 :: string where
  "Algorithm_BRC77 = ''BRC77''"

text \<open>
  The values \<open>vin\<close> can hold. \<open>parseInt\<close> returns a double: an integer-valued one
  (\<open>Num\<close>, rounded where the digits exceed what a double holds), negative zero, NaN
  without a digit, an infinity for a very long run of digits.
\<close>

datatype number = Num int | NegZero | NaN | PosInfinity | NegInfinity

text \<open>\<open>SigmaData\<close>. An absent optional field is \<open>None\<close>.\<close>

record SigmaData =
  bitcomIndex :: "int option"
  algorithm :: string
  address :: string
  signature :: "int list"
  vin :: number
  valid :: "bool option"

text \<open>
  Modelled from the spec: the declarations of \<open>Protocol\<close> and \<open>BitComDecoded\<close> live in
  \<open>BitCom.ts\<close>; a segment is a protocol label, its raw payload bytes and a position, and a
  decoded script is the ordered list of its segments.
\<close>

record Protocol =
  protocol :: string
  script :: "int list"
  pos :: int

record BitComDecoded =
  protocols :: "Protocol list"

record 'pk SigmaOptions =
  opt_algorithm :: "string option"
  opt_vin :: "int option"
  opt_verifier :: "'pk option"

text \<open>
  The calls into the SDK are parameters, collected in one record. Each of them may throw,
  so each returns \<open>error + _\<close>. The record also holds the runtime's \<open>parseInt(s, 10)\<close>,
  which never throws and whose rounding of long digit strings is the runtime's. \<open>Signature_fromCompact\<close> stands for
  \<open>Signature.fromCompact(Utils.toBase64(bytes), 'base64')\<close>, \<open>BSM_magicHash\<close> for
  \<open>new BigNumber(BSM.magicHash(m))\<close>, \<open>Signature_toCompact\<close> for
  \<open>Utils.toArray(sig.toCompact(factor, true, 'base64'), 'base64')\<close>.
\<close>

record ('sig, 'pk, 'dg, 'priv) sdk =
  Script_fromBinary :: "int list \<Rightarrow> error + chunk list"
  toUTF8 :: "int list \<Rightarrow> error + string"
  Signature_fromCompact :: "int list \<Rightarrow> error + 'sig"
  BSM_magicHash :: "int list \<Rightarrow> error + 'dg"
  RecoverPublicKey :: "'sig \<Rightarrow> int \<Rightarrow> 'dg \<Rightarrow> error + 'pk"
  BSM_verify :: "int list \<Rightarrow> 'sig \<Rightarrow> 'pk \<Rightarrow> error + bool"
  PublicKey_toAddress :: "'pk \<Rightarrow> error + string"
  SignedMessage_verify :: "int list \<Rightarrow> int list \<Rightarrow> 'priv option \<Rightarrow> error + bool"
  PrivateKey_toAddress :: "'priv \<Rightarrow> error + string"
  SignedMessage_sign :: "int list \<Rightarrow> 'priv \<Rightarrow> 'pk option \<Rightarrow> error + int list"
  BSM_sign :: "int list \<Rightarrow> 'priv \<Rightarrow> error + 'sig"
  PrivateKey_toPublicKey :: "'priv \<Rightarrow> error + 'pk"
  CalculateRecoveryFactor :: "'sig \<Rightarrow> 'pk \<Rightarrow> 'dg \<Rightarrow> error + int"
  Signature_toCompact :: "'sig \<Rightarrow> int \<Rightarrow> error + int list"
  parseInt10 :: "string \<Rightarrow> number"

subsection \<open>decode\<close>

definition chunk_data :: "chunk \<Rightarrow> int list" where
  "chunk_data c = (case data c of None \<Rightarrow> [] | Some d \<Rightarrow> d)"

text \<open>
  The body of the \<open>try\<close> for one segment: \<open>Inl\<close> is an exception, which the \<open>catch\<close>
  turns into \<open>continue\<close>; \<open>Inr None\<close> is the \<open>continue\<close> on fewer than four chunks.
\<close>

definition decode_segment ::
  "('sig, 'pk, 'dg, 'priv) sdk \<Rightarrow> nat \<Rightarrow> Protocol \<Rightarrow> error + SigmaData option" where
  "decode_segment env protoIdx p =
     (case Script_fromBinary env (script p) of
        Inl e \<Rightarrow> Inl e
      | Inr chunks \<Rightarrow>
          if length chunks < 4 then Inr None
          else
            case toUTF8 env (chunk_data (chunks ! 0)) of
              Inl e \<Rightarrow> Inl e
            | Inr alg \<Rightarrow>
                case toUTF8 env (chunk_data (chunks ! 1)) of
                  Inl e \<Rightarrow> Inl e
                | Inr addr \<Rightarrow>
                    case toUTF8 env (chunk_data (chunks ! 3)) of
                      Inl e \<Rightarrow> Inl e
                    | Inr vinText \<Rightarrow>
                        Inr (Some \<lparr>bitcomIndex = Some (int protoIdx),
                                   algorithm = alg,
                                   address = addr,
                                   signature = chunk_data (chunks ! 2),
                                   vin = parseInt10 env vinText,
                                   valid = None\<rparr>))"

function decode_loop ::
  "('sig, 'pk, 'dg, 'priv) sdk \<Rightarrow> Protocol list \<Rightarrow> nat \<Rightarrow> SigmaData list \<Rightarrow> SigmaData list" where
  "decode_loop env ps protoIdx sigmas =
     (if protoIdx < length ps then
        if protocol (ps ! protoIdx) = SIGMA_PREFIX then
          (case decode_segment env protoIdx (ps ! protoIdx) of
             Inr (Some sigma) \<Rightarrow> decode_loop env ps (protoIdx + 1) (sigmas @ [sigma])
           | Inr None \<Rightarrow> decode_loop env ps (protoIdx + 1) sigmas
           | Inl e \<Rightarrow> decode_loop env ps (protoIdx + 1) sigmas)
        else decode_loop env ps (protoIdx + 1) sigmas
      else sigmas)"
  by pat_completeness auto
termination
  by (relation "measure (\<lambda>(env, ps, protoIdx, sigmas). length ps - protoIdx)") auto

declare decode_loop.simps [simp del]

definition Sigma_decode ::
  "('sig, 'pk, 'dg, 'priv) sdk \<Rightarrow> BitComDecoded \<Rightarrow> error + SigmaData list" where
  "Sigma_decode env bitcom =
     (if length (protocols bitcom) = 0 then Inr []
      else Inr (decode_loop env (protocols bitcom) 0 []))"

subsection \<open>sign\<close>

definition sign_signature ::
  "('sig, 'pk, 'dg, 'priv) sdk \<Rightarrow> string \<Rightarrow> int list \<Rightarrow> 'priv \<Rightarrow> 'pk SigmaOptions \<Rightarrow> error + int list" where
  "sign_signature env alg messageHash privateKey options =
     (if alg = Algorithm_BRC77
      then SignedMessage_sign env messageHash privateKey (opt_verifier options)
      else
        case BSM_sign env messageHash privateKey of
          Inl e \<Rightarrow> Inl e
        | Inr sig \<Rightarrow>
            case BSM_magicHash env messageHash of
              Inl e \<Rightarrow> Inl e
            | Inr magicHashValue \<Rightarrow>
                case PrivateKey_toPublicKey env privateKey of
                  Inl e \<Rightarrow> Inl e
                | Inr pub \<Rightarrow>
                    case CalculateRecoveryFactor env sig pub magicHashValue of
                      Inl e \<Rightarrow> Inl e
                    | Inr recoveryFactor \<Rightarrow> Signature_toCompact env sig recoveryFactor)"

definition sign ::
  "('sig, 'pk, 'dg, 'priv) sdk \<Rightarrow> int list \<Rightarrow> int list \<Rightarrow> 'priv \<Rightarrow> 'pk SigmaOptions \<Rightarrow> error + SigmaData" where
  "sign env inputHash dataHash privateKey options =
     (let alg = (case opt_algorithm options of None \<Rightarrow> Algorithm_BSM | Some a \<Rightarrow> a);
          vin' = (case opt_vin options of None \<Rightarrow> 0 | Some v \<Rightarrow> v)
      in case PrivateKey_toAddress env privateKey of
           Inl e \<Rightarrow> Inl e
         | Inr addr \<Rightarrow>
             let messageHash = inputHash @ dataHash
             in case sign_signature env alg messageHash privateKey options of
                  Inl e \<Rightarrow> Inl e
                | Inr signatureArray \<Rightarrow>
                    Inr \<lparr>bitcomIndex = None,
                         algorithm = alg,
                         address = addr,
                         signature = signatureArray,
                         vin = Num vin',
                         valid = Some True\<rparr>)"

subsection \<open>verifyWithHashes\<close>

text \<open>
  The condition of the \<open>if\<close> inside the inner \<open>try\<close>, for one recovery factor; \<open>Inl\<close>
  is an exception thrown while it is evaluated. \<open>&&\<close> does not evaluate its right operand
  when the left one is false.
\<close>

definition try_recovery ::
  "('sig, 'pk, 'dg, 'priv) sdk \<Rightarrow> SigmaData \<Rightarrow> int list \<Rightarrow> 'sig \<Rightarrow> int \<Rightarrow> error + bool" where
  "try_recovery env d messageHash sig recovery =
     (case BSM_magicHash env messageHash of
        Inl e \<Rightarrow> Inl e
      | Inr h \<Rightarrow>
          case RecoverPublicKey env sig recovery h of
            Inl e \<Rightarrow> Inl e
          | Inr publicKey \<Rightarrow>
              case BSM_verify env messageHash sig publicKey of
                Inl e \<Rightarrow> Inl e
              | Inr v \<Rightarrow>
                  if \<not> v then Inr False
                  else
                    case PublicKey_toAddress env publicKey of
                      Inl e \<Rightarrow> Inl e
                    | Inr a \<Rightarrow> Inr (a = address d))"

text \<open>The \<open>for\<close> loop: \<open>Some\<close> is the early \<open>return true\<close>, \<open>None\<close> falling out of it.\<close>

function verify_loop ::
  "('sig, 'pk, 'dg, 'priv) sdk \<Rightarrow> SigmaData \<Rightarrow> int list \<Rightarrow> 'sig \<Rightarrow> int \<Rightarrow> (SigmaData \<times> bool) option" where
  "verify_loop env d messageHash sig recovery =
     (if recovery < 4 then
        (case try_recovery env d messageHash sig recovery of
           Inr True \<Rightarrow> Some (d\<lparr>valid := Some True\<rparr>, True)
         | Inr False \<Rightarrow> verify_loop env d messageHash sig (recovery + 1)
         | Inl e \<Rightarrow> verify_loop env d messageHash sig (recovery + 1))
      else None)"
  by pat_completeness auto
termination
  by (relation "measure (\<lambda>(env, d, messageHash, sig, recovery). nat (4 - recovery))") auto

declare verify_loop.simps [simp del]

definition verifyWithHashes_body ::
  "('sig, 'pk, 'dg, 'priv) sdk \<Rightarrow> SigmaData \<Rightarrow> int list \<Rightarrow> int list \<Rightarrow> 'priv option
     \<Rightarrow> error + SigmaData \<times> bool" where
  "verifyWithHashes_body env d inputHash dataHash recipientPrivateKey =
     (let messageHash = inputHash @ dataHash
      in if algorithm d = Algorithm_BRC77 then
           (case SignedMessage_verify env messageHash (signature d) recipientPrivateKey of
              Inl e \<Rightarrow> Inl e
            | Inr v \<Rightarrow> Inr (d\<lparr>valid := Some v\<rparr>, v))
         else
           case Signature_fromCompact env (signature d) of
             Inl e \<Rightarrow> Inl e
           | Inr sig \<Rightarrow>
               (case verify_loop env d messageHash sig 0 of
                  Some r \<Rightarrow> Inr r
                | None \<Rightarrow> Inr (d\<lparr>valid := Some False\<rparr>, False)))"

text \<open>The outer \<open>try\<close>/\<open>catch\<close>: an exception of the body records the invalid state.\<close>

definition verifyWithHashes ::
  "('sig, 'pk, 'dg, 'priv) sdk \<Rightarrow> SigmaData \<Rightarrow> int list \<Rightarrow> int list \<Rightarrow> 'priv option
     \<Rightarrow> error + SigmaData \<times> bool" where
  "verifyWithHashes env d inputHash dataHash recipientPrivateKey =
     (case verifyWithHashes_body env d inputHash dataHash recipientPrivateKey of
        Inl e \<Rightarrow> Inr (d\<lparr>valid := Some False\<rparr>, False)
      | Inr r \<Rightarrow> Inr r)"

subsection \<open>unlock\<close>

definition unlock :: "SigmaData \<Rightarrow> error + 'template" where
  "unlock d = Inl (Error ''SIGMA signatures cannot be unlocked'')"

section \<open>A stand-in for the SDK\<close>

text \<open>
  A small instance of the SDK record, used to run the SIGMA functions on concrete inputs:
  the script reader is \<open>parse_chunks\<close>, text is ASCII, a compact signature has 65 bytes,
  recovery factor 0 throws, factor 1 recovers a key that does not verify and factor 2 the
  signer's key; \<open>parseInt10\<close> reads the text "0" and nothing else.
\<close>

definition toy_sdk :: "(int list, int, int list, int) sdk" where
  "toy_sdk =
     \<lparr>Script_fromBinary = (\<lambda>bs. Inr (parse_chunks (map word_of_int bs))),
      toUTF8 = (\<lambda>bs. Inr (map char_of bs)),
      Signature_fromCompact =
        (\<lambda>bs. if length bs = 65 then Inr bs else Inl (Error ''Invalid Compact Signature'')),
      BSM_magicHash = (\<lambda>m. Inr m),
      RecoverPublicKey = (\<lambda>sig r h. if r = 0 then Inl (Error ''Invalid point'') else Inr r),
      BSM_verify = (\<lambda>m sig pk. Inr (2 \<le> pk)),
      PublicKey_toAddress = (\<lambda>pk. Inr (if pk = 2 then ''1Signer'' else ''1Other'')),
      SignedMessage_verify = (\<lambda>m sig rk. Inr (sig = m)),
      PrivateKey_toAddress = (\<lambda>k. Inr ''1Signer''),
      SignedMessage_sign = (\<lambda>m k v. Inr m),
      BSM_sign = (\<lambda>m k. Inr (replicate 65 1)),
      PrivateKey_toPublicKey = (\<lambda>k. Inr 2),
      CalculateRecoveryFactor = (\<lambda>sig pk h. Inr 2),
      Signature_toCompact = (\<lambda>sig rf. Inr sig),
      parseInt10 = (\<lambda>s. if s = ''0'' then Num 0 else NaN)\<rparr>"

definition toy_record :: SigmaData where
  "toy_record =
     \<lparr>bitcomIndex = Some 0, algorithm = Algorithm_BSM, address = ''1Signer'',
      signature = replicate 65 1, vin = Num 0, valid = None\<rparr>"

subsection \<open>What one segment contributes\<close>

text \<open>
  The record, if any, that the loop of \<open>decode\<close> appends for the segment at index \<open>i\<close>:
  none when the label is not SIGMA, when the body throws or when it has fewer than four
  chunks.
\<close>

definition segment_record ::
  "('sig, 'pk, 'dg, 'priv) sdk \<Rightarrow> Protocol list \<Rightarrow> nat \<Rightarrow> SigmaData option" where
  "segment_record env ps i =
     (if protocol (ps ! i) = SIGMA_PREFIX
      then (case decode_segment env i (ps ! i) of Inr (Some sigma) \<Rightarrow> Some sigma | _ \<Rightarrow> None)
      else None)"

text \<open>
  What the specification asks of one segment, written from its words and not from the code
  of \<open>decode\<close>: a segment labelled SIGMA whose payload parses to at least four sub-fields
  (algorithm, address, signature, anchor index) gives a record with exactly those fields,
  the position of the segment and no validity; any other segment gives nothing.
\<close>

definition spec_segment_record ::
  "('sig, 'pk, 'dg, 'priv) sdk \<Rightarrow> Protocol \<Rightarrow> nat \<Rightarrow> SigmaData option" where
  "spec_segment_record env p j =
     (if protocol p \<noteq> SIGMA_PREFIX then None
      else
        case Script_fromBinary env (script p) of
          Inl e \<Rightarrow> None
        | Inr subfields \<Rightarrow>
            if length subfields < 4 then None
            else
              case (toUTF8 env (chunk_data (subfields ! 0)),
                    toUTF8 env (chunk_data (subfields ! 1)),
                    toUTF8 env (chunk_data (subfields ! 3))) of
                (Inr alg, Inr addr, Inr idx) \<Rightarrow>
                  Some \<lparr>bitcomIndex = Some (int j), algorithm = alg, address = addr,
                        signature = chunk_data (subfields ! 2), vin = parseInt10 env idx,
                        valid = None\<rparr>
              | _ \<Rightarrow> None)"

text \<open>
  Concrete segments: \<open>short_script\<close> pushes "BSM", "A", the two bytes 1 2 and "0";
  \<open>truncated_script\<close> stops after the third push.
\<close>

definition short_script :: "int list" where
  "short_script = [3, 66, 83, 77, 1, 65, 2, 1, 2, 1, 48]"

definition truncated_script :: "int list" where
  "truncated_script = [3, 66, 83, 77, 1, 65, 2, 1, 2]"

definition three_segments :: BitComDecoded where
  "three_segments =
     \<lparr>protocols =
        [\<lparr>protocol = ''SIGMA'', script = short_script, pos = 0\<rparr>,
         \<lparr>protocol = ''SIGMA'', script = truncated_script, pos = 12\<rparr>,
         \<lparr>protocol = ''SIGMA'', script = short_script, pos = 22\<rparr>]\<rparr>"

definition one_segment :: BitComDecoded where
  "one_segment = \<lparr>protocols = [\<lparr>protocol = ''SIGMA'', script = short_script, pos = 0\<rparr>]\<rparr>"

definition short_record :: SigmaData where
  "short_record =
     \<lparr>bitcomIndex = Some 0, algorithm = ''BSM'', address = ''A'', signature = [1, 2],
      vin = Num 0, valid = None\<rparr>"

section \<open>Verification of the SIGMA template\<close>

subsection \<open>The recovery search of verifyWithHashes\<close>

lemma try_recovery_True_iff:
  "try_recovery env d m sig r = Inr True \<longleftrightarrow>
     (\<exists>h pk. BSM_magicHash env m = Inr h \<and> RecoverPublicKey env sig r h = Inr pk
        \<and> BSM_verify env m sig pk = Inr True \<and> PublicKey_toAddress env pk = Inr (address d))"
  by (auto simp: try_recovery_def split: sum.splits)

lemma verify_loop_char:
  "verify_loop env d m sig r =
     (if \<exists>k. r \<le> k \<and> k < 4 \<and> try_recovery env d m sig k = Inr True
      then Some (d\<lparr>valid := Some True\<rparr>, True) else None)"
proof (induction env d m sig r rule: verify_loop.induct)
  case (1 env d m sig r)
  show ?case
  proof (cases "r < 4")
    case False
    then show ?thesis by (subst verify_loop.simps) auto
  next
    case lt: True
    show ?thesis
    proof (cases "try_recovery env d m sig r = Inr True")
      case True
      then have "verify_loop env d m sig r = Some (d\<lparr>valid := Some True\<rparr>, True)"
        using lt by (subst verify_loop.simps) simp
      moreover have "\<exists>k. r \<le> k \<and> k < 4 \<and> try_recovery env d m sig k = Inr True"
        using lt True by (intro exI [of _ r]) simp
      ultimately show ?thesis by simp
    next
      case False
      then have step: "verify_loop env d m sig r = verify_loop env d m sig (r + 1)"
        using lt by (subst verify_loop.simps) (auto split: sum.splits bool.splits)
      have ih: "verify_loop env d m sig (r + 1) =
          (if \<exists>k. r + 1 \<le> k \<and> k < 4 \<and> try_recovery env d m sig k = Inr True
           then Some (d\<lparr>valid := Some True\<rparr>, True) else None)"
      proof (cases "try_recovery env d m sig r")
        case (Inl e)
        then show ?thesis using "1.IH" lt by simp
      next
        case (Inr b)
        with False have "b = False" by simp
        then show ?thesis using "1.IH" lt Inr by simp
      qed
      have "(\<exists>k. r \<le> k \<and> k < 4 \<and> try_recovery env d m sig k = Inr True)
            \<longleftrightarrow> (\<exists>k. r + 1 \<le> k \<and> k < 4 \<and> try_recovery env d m sig k = Inr True)"
      proof
        assume "\<exists>k. r \<le> k \<and> k < 4 \<and> try_recovery env d m sig k = Inr True"
        then obtain k where k: "r \<le> k" "k < 4" "try_recovery env d m sig k = Inr True" by blast
        with False have "k \<noteq> r" by auto
        with k show "\<exists>k. r + 1 \<le> k \<and> k < 4 \<and> try_recovery env d m sig k = Inr True"
          by (intro exI [of _ k]) simp
      next
        assume "\<exists>k. r + 1 \<le> k \<and> k < 4 \<and> try_recovery env d m sig k = Inr True"
        then obtain k where "r + 1 \<le> k" "k < 4" "try_recovery env d m sig k = Inr True" by blast
        then show "\<exists>k. r \<le> k \<and> k < 4 \<and> try_recovery env d m sig k = Inr True"
          by (intro exI [of _ k]) simp
      qed
      with step ih show ?thesis by simp
    qed
  qed
qed


lemma verifyWithHashes_BSM:
  assumes "algorithm d \<noteq> Algorithm_BRC77"
  shows "verifyWithHashes env d inputHash dataHash rk =
     (if \<exists>sig. Signature_fromCompact env (signature d) = Inr sig
            \<and> (\<exists>k. 0 \<le> k \<and> k < 4 \<and> try_recovery env d (inputHash @ dataHash) sig k = Inr True)
      then Inr (d\<lparr>valid := Some True\<rparr>, True)
      else Inr (d\<lparr>valid := Some False\<rparr>, False))"
proof (cases "Signature_fromCompact env (signature d)")
  case (Inl e)
  then show ?thesis using assms
    by (simp add: verifyWithHashes_def verifyWithHashes_body_def)
next
  case (Inr sig)
  then show ?thesis using assms
    by (auto simp: verifyWithHashes_def verifyWithHashes_body_def verify_loop_char)
qed

lemma verifyWithHashes_BRC77:
  assumes "algorithm d = Algorithm_BRC77"
  shows "verifyWithHashes env d inputHash dataHash rk =
     (case SignedMessage_verify env (inputHash @ dataHash) (signature d) rk of
        Inl e \<Rightarrow> Inr (d\<lparr>valid := Some False\<rparr>, False)
      | Inr v \<Rightarrow> Inr (d\<lparr>valid := Some v\<rparr>, v))"
  using assms by (simp add: verifyWithHashes_def verifyWithHashes_body_def split: sum.splits)

lemma verifyWithHashes_cases:
  "verifyWithHashes env d inputHash dataHash rk = Inr (d\<lparr>valid := Some True\<rparr>, True)
   \<or> verifyWithHashes env d inputHash dataHash rk = Inr (d\<lparr>valid := Some False\<rparr>, False)"
proof (cases "algorithm d = Algorithm_BRC77")
  case True
  show ?thesis
  proof (cases "SignedMessage_verify env (inputHash @ dataHash) (signature d) rk")
    case (Inl e)
    with True show ?thesis by (simp add: verifyWithHashes_BRC77)
  next
    case (Inr v)
    with True show ?thesis by (cases v) (simp_all add: verifyWithHashes_BRC77)
  qed
next
  case False
  then show ?thesis by (simp add: verifyWithHashes_BSM)
qed

lemma recovery_range: "(\<exists>k::int. 0 \<le> k \<and> k < 4 \<and> P k) = (\<exists>k\<in>{0, 1, 2, 3}. P k)"
proof
  assume "\<exists>k. 0 \<le> k \<and> k < 4 \<and> P k"
  then obtain k where k: "0 \<le> k" "k < 4" "P k" by blast
  then have "k \<in> {0, 1, 2, 3}" by auto
  with k(3) show "\<exists>k\<in>{0, 1, 2, 3}. P k" by blast
next
  assume "\<exists>k\<in>{0, 1, 2, 3}. P k"
  then obtain k where k: "k \<in> {0, 1, 2, 3}" "P k" by blast
  then have "0 \<le> k \<and> k < 4" by auto
  with k(2) show "\<exists>k. 0 \<le> k \<and> k < 4 \<and> P k" by blast
qed

text \<open>
  Claim C1. For a record whose algorithm is not BRC77 (the legacy BSM path),
  \<open>verifyWithHashes\<close> returns true and sets \<open>valid\<close> to true exactly when some recovery
  factor among 0, 1, 2, 3 recovers a public key from the parsed signature and the magic hash
  of the message, \<open>BSM.verify\<close> accepts the message and signature under that key, and the
  key's address is the record's address; otherwise it returns false and sets \<open>valid\<close> to
  false. A factor whose recovery throws only makes the search go on with the next factor.
\<close>

theorem verifyWithHashes_recovery_search:
  assumes "algorithm d \<noteq> Algorithm_BRC77"
  shows "verifyWithHashes env d inputHash dataHash rk =
     (if \<exists>recovery\<in>{0, 1, 2, 3}. \<exists>sig h pk.
            Signature_fromCompact env (signature d) = Inr sig
          \<and> BSM_magicHash env (inputHash @ dataHash) = Inr h
          \<and> RecoverPublicKey env sig recovery h = Inr pk
          \<and> BSM_verify env (inputHash @ dataHash) sig pk = Inr True
          \<and> PublicKey_toAddress env pk = Inr (address d)
      then Inr (d\<lparr>valid := Some True\<rparr>, True)
      else Inr (d\<lparr>valid := Some False\<rparr>, False))"
proof -
  have "(\<exists>sig. Signature_fromCompact env (signature d) = Inr sig
            \<and> (\<exists>k. 0 \<le> k \<and> k < 4 \<and> try_recovery env d (inputHash @ dataHash) sig k = Inr True))
     \<longleftrightarrow> (\<exists>recovery\<in>{0, 1, 2, 3}. \<exists>sig h pk.
            Signature_fromCompact env (signature d) = Inr sig
          \<and> BSM_magicHash env (inputHash @ dataHash) = Inr h
          \<and> RecoverPublicKey env sig recovery h = Inr pk
          \<and> BSM_verify env (inputHash @ dataHash) sig pk = Inr True
          \<and> PublicKey_toAddress env pk = Inr (address d))"
    unfolding try_recovery_True_iff recovery_range by blast
  then show ?thesis using verifyWithHashes_BSM [OF assms, of env inputHash dataHash rk]
    by simp
qed

lemma toy_record_BSM: "algorithm toy_record \<noteq> Algorithm_BRC77"
  by (simp add: toy_record_def Algorithm_BSM_def Algorithm_BRC77_def)

text \<open>
  On the stand-in SDK factor 0 throws and factor 1 fails the check; the search still reaches
  factor 2 and succeeds.
\<close>

theorem verifyWithHashes_recovery_search_witness:
  "algorithm toy_record \<noteq> Algorithm_BRC77
   \<and> RecoverPublicKey toy_sdk (replicate 65 1) 0 [1, 2] = Inl (Error ''Invalid point'')
   \<and> verifyWithHashes toy_sdk toy_record [1] [2] None = Inr (toy_record\<lparr>valid := Some True\<rparr>, True)"
proof -
  have "\<exists>recovery\<in>{0, 1, 2, 3}. \<exists>sig h pk.
            Signature_fromCompact toy_sdk (signature toy_record) = Inr sig
          \<and> BSM_magicHash toy_sdk ([1] @ [2]) = Inr h
          \<and> RecoverPublicKey toy_sdk sig recovery h = Inr pk
          \<and> BSM_verify toy_sdk ([1] @ [2]) sig pk = Inr True
          \<and> PublicKey_toAddress toy_sdk pk = Inr (address toy_record)"
    by (intro bexI [of _ 2]) (simp_all add: toy_sdk_def toy_record_def)
  then show ?thesis
    using verifyWithHashes_recovery_search [OF toy_record_BSM, of toy_sdk "[1]" "[2]" None]
    by (simp add: toy_record_BSM toy_sdk_def)
qed

text \<open>
  Claim C6. \<open>verifyWithHashes\<close> never throws: it returns true with \<open>valid\<close> set to true,
  or false with \<open>valid\<close> set to false; and when a step of its body throws, it returns
  false and records \<open>valid = false\<close>.
\<close>

theorem verifyWithHashes_never_throws:
  "(verifyWithHashes env d inputHash dataHash rk = Inr (d\<lparr>valid := Some True\<rparr>, True)
    \<or> verifyWithHashes env d inputHash dataHash rk = Inr (d\<lparr>valid := Some False\<rparr>, False))
   \<and> (\<forall>e. verifyWithHashes_body env d inputHash dataHash rk = Inl e
          \<longrightarrow> verifyWithHashes env d inputHash dataHash rk = Inr (d\<lparr>valid := Some False\<rparr>, False))"
  using verifyWithHashes_cases [of env d inputHash dataHash rk]
  by (simp add: verifyWithHashes_def)

text \<open>
  An empty signature makes \<open>Signature.fromCompact\<close> throw inside the body.
\<close>

theorem verifyWithHashes_never_throws_witness:
  "verifyWithHashes_body toy_sdk (toy_record\<lparr>signature := []\<rparr>) [1] [2] None
     = Inl (Error ''Invalid Compact Signature'')
   \<and> verifyWithHashes toy_sdk (toy_record\<lparr>signature := []\<rparr>) [1] [2] None
     = Inr (toy_record\<lparr>signature := [], valid := Some False\<rparr>, False)"
proof -
  have b: "verifyWithHashes_body toy_sdk (toy_record\<lparr>signature := []\<rparr>) [1] [2] None
     = Inl (Error ''Invalid Compact Signature'')"
    by (simp add: verifyWithHashes_body_def toy_sdk_def toy_record_def
        Algorithm_BSM_def Algorithm_BRC77_def)
  with verifyWithHashes_never_throws [of toy_sdk "toy_record\<lparr>signature := []\<rparr>" "[1]" "[2]" None]
  show ?thesis by simp
qed

text \<open>
  Claim C9. \<open>verifyWithHashes\<close> changes only the \<open>valid\<close> field: algorithm, address,
  signature, vin and bitcomIndex of the record are the same afterwards.
\<close>

theorem verifyWithHashes_frame:
  "\<exists>d' b. verifyWithHashes env d inputHash dataHash rk = Inr (d', b)
     \<and> algorithm d' = algorithm d \<and> address d' = address d \<and> signature d' = signature d
     \<and> vin d' = vin d \<and> bitcomIndex d' = bitcomIndex d"
  using verifyWithHashes_cases [of env d inputHash dataHash rk] by auto

text \<open>
  Claim C8. A record returned by \<open>sign\<close> has \<open>valid = true\<close>, the address derived from
  the private key, the requested algorithm (BSM when none is given) and the requested vin
  (0 when none is given).
\<close>

theorem sign_record:
  assumes "sign env inputHash dataHash privateKey options = Inr s"
  shows "valid s = Some True
     \<and> PrivateKey_toAddress env privateKey = Inr (address s)
     \<and> algorithm s = (case opt_algorithm options of None \<Rightarrow> Algorithm_BSM | Some a \<Rightarrow> a)
     \<and> vin s = Num (case opt_vin options of None \<Rightarrow> 0 | Some v \<Rightarrow> v)"
  using assms by (auto simp: sign_def Let_def split: sum.splits)

text \<open>
  \<open>sign\<close> does return on the stand-in SDK, with the default algorithm and vin.
\<close>

theorem sign_record_witness:
  "sign toy_sdk [1] [2] 5 \<lparr>opt_algorithm = None, opt_vin = None, opt_verifier = None\<rparr>
     = Inr \<lparr>bitcomIndex = None, algorithm = ''BSM'', address = ''1Signer'',
            signature = replicate 65 1, vin = Num 0, valid = Some True\<rparr>
   \<and> PrivateKey_toAddress toy_sdk 5 = Inr ''1Signer''"
proof -
  have r: "sign toy_sdk [1] [2] 5 \<lparr>opt_algorithm = None, opt_vin = None, opt_verifier = None\<rparr>
     = Inr \<lparr>bitcomIndex = None, algorithm = ''BSM'', address = ''1Signer'',
            signature = replicate 65 1, vin = Num 0, valid = Some True\<rparr>"
    by (simp add: sign_def sign_signature_def toy_sdk_def Algorithm_BSM_def Algorithm_BRC77_def)
  from sign_record [OF r] r show ?thesis by simp
qed

text \<open>
  Claim C10. \<open>unlock\<close> always throws the error "SIGMA signatures cannot be unlocked";
  it never yields an unlocking template.
\<close>

theorem unlock_throws:
  "unlock d = Inl (Error ''SIGMA signatures cannot be unlocked'') \<and> (\<forall>t. unlock d \<noteq> Inr t)"
  by (simp add: unlock_def)

subsection \<open>decode\<close>

lemma decode_loop_step:
  assumes "i < length ps"
  shows "decode_loop env ps i acc =
     decode_loop env ps (Suc i)
       (case segment_record env ps i of None \<Rightarrow> acc | Some sigma \<Rightarrow> acc @ [sigma])"
  using assms
  by (subst decode_loop.simps)
     (simp add: segment_record_def split: sum.splits option.splits)

lemma decode_loop_char:
  "i \<le> length ps \<Longrightarrow>
   decode_loop env ps i acc = acc @ List.map_filter (segment_record env ps) [i..<length ps]"
proof (induction "length ps - i" arbitrary: i acc)
  case 0
  then have "\<not> i < length ps" by simp
  then show ?case using 0 by (subst decode_loop.simps) (simp add: map_filter_simps)
next
  case (Suc n)
  then have lt: "i < length ps" by simp
  then have upt: "[i..<length ps] = i # [Suc i..<length ps]"
    by (simp add: upt_conv_Cons)
  have ih: "decode_loop env ps (Suc i) acc' =
      acc' @ List.map_filter (segment_record env ps) [Suc i..<length ps]" for acc'
    using Suc.hyps(1) [of "Suc i" acc'] Suc.hyps(2) lt by simp
  show ?case
    unfolding decode_loop_step [OF lt] ih upt
    by (cases "segment_record env ps i") (simp_all add: map_filter_simps)
qed

lemma Sigma_decode_char:
  "Sigma_decode env bitcom =
     Inr (List.map_filter (segment_record env (protocols bitcom)) [0..<length (protocols bitcom)])"
  by (simp add: Sigma_decode_def decode_loop_char map_filter_simps)

lemma segment_record_short:
  assumes "protocol (ps ! i) = SIGMA_PREFIX"
    and "Script_fromBinary env (script (ps ! i)) = Inr cs" and "length cs < 4"
  shows "segment_record env ps i = None"
  using assms by (simp add: segment_record_def decode_segment_def)

lemma segment_record_well_formed:
  assumes "protocol (ps ! i) = SIGMA_PREFIX"
    and "Script_fromBinary env (script (ps ! i)) = Inr cw" and "4 \<le> length cw"
    and "toUTF8 env (chunk_data (cw ! 0)) = Inr alg"
    and "toUTF8 env (chunk_data (cw ! 1)) = Inr addr"
    and "toUTF8 env (chunk_data (cw ! 3)) = Inr vinText"
  shows "segment_record env ps i =
     Some \<lparr>bitcomIndex = Some (int i), algorithm = alg, address = addr,
           signature = chunk_data (cw ! 2), vin = parseInt10 env vinText, valid = None\<rparr>"
  using assms by (simp add: segment_record_def decode_segment_def)

lemma segment_record_SomeD:
  assumes "segment_record env ps i = Some s"
  shows "protocol (ps ! i) = SIGMA_PREFIX \<and> bitcomIndex s = Some (int i)
     \<and> (\<exists>cs. Script_fromBinary env (script (ps ! i)) = Inr cs \<and> 4 \<le> length cs
            \<and> signature s = chunk_data (cs ! 2)
            \<and> toUTF8 env (chunk_data (cs ! 0)) = Inr (algorithm s)
            \<and> toUTF8 env (chunk_data (cs ! 1)) = Inr (address s))"
  using assms
  by (auto simp: segment_record_def decode_segment_def split: sum.splits option.splits if_splits)

lemma segment_record_fields:
  assumes "segment_record env ps j = Some s"
  shows "\<exists>cw alg addr vinText.
           protocol (ps ! j) = SIGMA_PREFIX
           \<and> Script_fromBinary env (script (ps ! j)) = Inr cw
           \<and> 4 \<le> length cw
           \<and> toUTF8 env (chunk_data (cw ! 0)) = Inr alg
           \<and> toUTF8 env (chunk_data (cw ! 1)) = Inr addr
           \<and> toUTF8 env (chunk_data (cw ! 3)) = Inr vinText
           \<and> s = \<lparr>bitcomIndex = Some (int j), algorithm = alg, address = addr,
                   signature = chunk_data (cw ! 2), vin = parseInt10 env vinText,
                   valid = None\<rparr>"
  using assms
  by (auto simp: segment_record_def decode_segment_def split: sum.splits option.splits if_splits)

lemma map_filter_split:
  assumes "i < n" and "f i = None"
  shows "List.map_filter f [0..<n] = List.map_filter f [0..<i] @ List.map_filter f [Suc i..<n]"
proof -
  have "[0..<n] = [0..<i] @ i # [Suc i..<n]"
    using assms(1) by (metis le_add1 less_imp_add_positive plus_nat.add_0 upt_add_eq_append upt_conv_Cons)
  then show ?thesis using assms(2) by (simp add: List.map_filter_def)
qed

lemma set_map_filter: "y \<in> set (List.map_filter f xs) \<longleftrightarrow> (\<exists>x\<in>set xs. f x = Some y)"
  by (induction xs) (auto simp: map_filter_simps split: option.splits)

lemma segment_record_spec:
  "segment_record env ps j = spec_segment_record env (ps ! j) j"
  by (simp add: segment_record_def spec_segment_record_def decode_segment_def
      split: sum.splits)

text \<open>
  Claim C5. A SIGMA segment whose payload parses to fewer than four chunks is skipped and
  the loop goes on, without an exception. With such a segment at index \<open>i\<close>, the result of
  \<open>decode\<close> is, in order, what the specification asks of every other segment. Every
  well-formed segment of the script, wherever it stands, has its record in the result, with
  its own index and fields; every record of the result is that of a well-formed segment other
  than \<open>i\<close>. In particular, when the script has two segments and the other one is well
  formed, the result is exactly the one record with the fields of that segment.
\<close>

theorem Sigma_decode_skips_short_segment:
  assumes "i < length (protocols bitcom)"
    and "protocol (protocols bitcom ! i) = SIGMA_PREFIX"
    and "Script_fromBinary env (script (protocols bitcom ! i)) = Inr cs"
    and "length cs < 4"
  shows "Sigma_decode env bitcom =
           Inr (List.map_filter
                  (\<lambda>j. if j = i then None else spec_segment_record env (protocols bitcom ! j) j)
                  [0..<length (protocols bitcom)])
       \<and> (\<forall>j cw alg addr vinText.
             j < length (protocols bitcom)
             \<and> protocol (protocols bitcom ! j) = SIGMA_PREFIX
             \<and> Script_fromBinary env (script (protocols bitcom ! j)) = Inr cw
             \<and> 4 \<le> length cw
             \<and> toUTF8 env (chunk_data (cw ! 0)) = Inr alg
             \<and> toUTF8 env (chunk_data (cw ! 1)) = Inr addr
             \<and> toUTF8 env (chunk_data (cw ! 3)) = Inr vinText
             \<longrightarrow> (\<exists>sigmas. Sigma_decode env bitcom = Inr sigmas
                    \<and> \<lparr>bitcomIndex = Some (int j), algorithm = alg, address = addr,
                        signature = chunk_data (cw ! 2), vin = parseInt10 env vinText,
                        valid = None\<rparr> \<in> set sigmas))
       \<and> (\<forall>sigmas s.
             Sigma_decode env bitcom = Inr sigmas \<and> s \<in> set sigmas
             \<longrightarrow> (\<exists>j cw alg addr vinText.
                    j < length (protocols bitcom) \<and> j \<noteq> i
                    \<and> protocol (protocols bitcom ! j) = SIGMA_PREFIX
                    \<and> Script_fromBinary env (script (protocols bitcom ! j)) = Inr cw
                    \<and> 4 \<le> length cw
                    \<and> toUTF8 env (chunk_data (cw ! 0)) = Inr alg
                    \<and> toUTF8 env (chunk_data (cw ! 1)) = Inr addr
                    \<and> toUTF8 env (chunk_data (cw ! 3)) = Inr vinText
                    \<and> s = \<lparr>bitcomIndex = Some (int j), algorithm = alg, address = addr,
                            signature = chunk_data (cw ! 2), vin = parseInt10 env vinText,
                            valid = None\<rparr>))
       \<and> (\<forall>cw alg addr vinText.
             length (protocols bitcom) = 2
             \<and> protocol (protocols bitcom ! (1 - i)) = SIGMA_PREFIX
             \<and> Script_fromBinary env (script (protocols bitcom ! (1 - i))) = Inr cw
             \<and> 4 \<le> length cw
             \<and> toUTF8 env (chunk_data (cw ! 0)) = Inr alg
             \<and> toUTF8 env (chunk_data (cw ! 1)) = Inr addr
             \<and> toUTF8 env (chunk_data (cw ! 3)) = Inr vinText
             \<longrightarrow> Sigma_decode env bitcom =
                   Inr [\<lparr>bitcomIndex = Some (int (1 - i)), algorithm = alg, address = addr,
                         signature = chunk_data (cw ! 2), vin = parseInt10 env vinText,
                         valid = None\<rparr>])"
proof -
  let ?ps = "protocols bitcom"
  let ?n = "length ?ps"
  have none: "segment_record env ?ps i = None"
    using assms(2-4) by (rule segment_record_short)
  have same: "(\<lambda>j. if j = i then None else spec_segment_record env (?ps ! j) j)
      = segment_record env ?ps"
  proof
    fix j
    show "(if j = i then None else spec_segment_record env (?ps ! j) j) = segment_record env ?ps j"
      using none by (simp add: segment_record_spec)
  qed
  have all: "Sigma_decode env bitcom =
      Inr (List.map_filter
             (\<lambda>j. if j = i then None else spec_segment_record env (?ps ! j) j) [0..<?n])"
    unfolding same by (rule Sigma_decode_char)
  have present: "\<exists>sigmas. Sigma_decode env bitcom = Inr sigmas
                    \<and> \<lparr>bitcomIndex = Some (int j), algorithm = alg, address = addr,
                        signature = chunk_data (cw ! 2), vin = parseInt10 env vinText,
                        valid = None\<rparr> \<in> set sigmas"
    if "j < ?n"
      and w: "protocol (?ps ! j) = SIGMA_PREFIX"
        "Script_fromBinary env (script (?ps ! j)) = Inr cw" "4 \<le> length cw"
        "toUTF8 env (chunk_data (cw ! 0)) = Inr alg" "toUTF8 env (chunk_data (cw ! 1)) = Inr addr"
        "toUTF8 env (chunk_data (cw ! 3)) = Inr vinText"
    for j cw alg addr vinText
  proof -
    have "segment_record env ?ps j =
        Some \<lparr>bitcomIndex = Some (int j), algorithm = alg, address = addr,
              signature = chunk_data (cw ! 2), vin = parseInt10 env vinText, valid = None\<rparr>"
      using w by (rule segment_record_well_formed)
    with \<open>j < ?n\<close>
    have "\<lparr>bitcomIndex = Some (int j), algorithm = alg, address = addr,
           signature = chunk_data (cw ! 2), vin = parseInt10 env vinText, valid = None\<rparr>
        \<in> set (List.map_filter (segment_record env ?ps) [0..<?n])"
      unfolding set_map_filter by (intro bexI [of _ j]) simp_all
    then show ?thesis by (simp add: Sigma_decode_char)
  qed
  have origin: "\<exists>j cw alg addr vinText.
                    j < ?n \<and> j \<noteq> i
                    \<and> protocol (?ps ! j) = SIGMA_PREFIX
                    \<and> Script_fromBinary env (script (?ps ! j)) = Inr cw
                    \<and> 4 \<le> length cw
                    \<and> toUTF8 env (chunk_data (cw ! 0)) = Inr alg
                    \<and> toUTF8 env (chunk_data (cw ! 1)) = Inr addr
                    \<and> toUTF8 env (chunk_data (cw ! 3)) = Inr vinText
                    \<and> s = \<lparr>bitcomIndex = Some (int j), algorithm = alg, address = addr,
                            signature = chunk_data (cw ! 2), vin = parseInt10 env vinText,
                            valid = None\<rparr>"
    if "Sigma_decode env bitcom = Inr sigmas" "s \<in> set sigmas" for sigmas s
  proof -
    from that have "s \<in> set (List.map_filter (segment_record env ?ps) [0..<?n])"
      by (simp add: Sigma_decode_char)
    then obtain j where j: "j < ?n" and r: "segment_record env ?ps j = Some s"
      by (auto simp: set_map_filter)
    from r none have ji: "j \<noteq> i" by auto
    from segment_record_fields [OF r] j ji show ?thesis by blast
  qed
  have two: "Sigma_decode env bitcom =
                   Inr [\<lparr>bitcomIndex = Some (int (1 - i)), algorithm = alg, address = addr,
                         signature = chunk_data (cw ! 2), vin = parseInt10 env vinText,
                         valid = None\<rparr>]"
    if len: "?n = 2"
      and w: "protocol (?ps ! (1 - i)) = SIGMA_PREFIX"
        "Script_fromBinary env (script (?ps ! (1 - i))) = Inr cw" "4 \<le> length cw"
        "toUTF8 env (chunk_data (cw ! 0)) = Inr alg" "toUTF8 env (chunk_data (cw ! 1)) = Inr addr"
        "toUTF8 env (chunk_data (cw ! 3)) = Inr vinText"
    for cw alg addr vinText
  proof -
    have r: "segment_record env ?ps (1 - i) =
        Some \<lparr>bitcomIndex = Some (int (1 - i)), algorithm = alg, address = addr,
              signature = chunk_data (cw ! 2), vin = parseInt10 env vinText, valid = None\<rparr>"
      using w by (rule segment_record_well_formed)
    have split: "Sigma_decode env bitcom =
           Inr (List.map_filter (segment_record env ?ps) [0..<i]
                @ List.map_filter (segment_record env ?ps) [Suc i..<?n])"
      unfolding Sigma_decode_char
      using map_filter_split [of i ?n "segment_record env ?ps"] assms(1) none by simp
    have "i = 0 \<or> i = 1" using assms(1) len by auto
    then show ?thesis
    proof
      assume "i = 0"
      moreover have "[Suc 0..<2] = [Suc 0]" by (simp add: upt_conv_Cons)
      ultimately show ?thesis using split len r by (simp add: map_filter_simps)
    next
      assume "i = 1"
      moreover have "[0..<1] = [0::nat]" by (simp add: upt_conv_Cons)
      ultimately show ?thesis using split len r by (simp add: map_filter_simps)
    qed
  qed
  from all present origin two show ?thesis by blast
qed

lemma parse_short_script:
  "parse_chunks (map word_of_int short_script) =
     [\<lparr>op = 3, data = Some [66, 83, 77]\<rparr>, \<lparr>op = 1, data = Some [65]\<rparr>,
      \<lparr>op = 2, data = Some [1, 2]\<rparr>, \<lparr>op = 1, data = Some [48]\<rparr>]"
  by (simp add: short_script_def)

lemma parse_truncated_script:
  "parse_chunks (map word_of_int truncated_script) =
     [\<lparr>op = 3, data = Some [66, 83, 77]\<rparr>, \<lparr>op = 1, data = Some [65]\<rparr>,
      \<lparr>op = 2, data = Some [1, 2]\<rparr>]"
  by (simp add: truncated_script_def)

lemma toy_text:
  "map char_of [66, 83, 77 :: int] = ''BSM''"
  "map char_of [65 :: int] = ''A''"
  "map char_of [48 :: int] = ''0''"
  by (simp_all add: char_of_def)

lemma toy_parseInt10_zero: "parseInt10 toy_sdk ''0'' = Num 0"
  by (simp add: toy_sdk_def)

lemma toy_fields:
  "toUTF8 toy_sdk [66, 83, 77] = Inr ''BSM''" "toUTF8 toy_sdk [65] = Inr ''A''"
  "toUTF8 toy_sdk [48] = Inr ''0''"
  by (simp_all add: toy_sdk_def toy_text del: list.map)

lemma spec_segment_record_short_script:
  "spec_segment_record toy_sdk \<lparr>protocol = ''SIGMA'', script = short_script, pos = q\<rparr> j =
     Some \<lparr>bitcomIndex = Some (int j), algorithm = ''BSM'', address = ''A'', signature = [1, 2],
           vin = Num 0, valid = None\<rparr>"
proof -
  have "Script_fromBinary toy_sdk short_script =
      Inr [\<lparr>op = 3, data = Some [66, 83, 77]\<rparr>, \<lparr>op = 1, data = Some [65]\<rparr>,
           \<lparr>op = 2, data = Some [1, 2]\<rparr>, \<lparr>op = 1, data = Some [48]\<rparr>]"
    by (simp add: toy_sdk_def parse_short_script)
  then show ?thesis
    by (simp add: spec_segment_record_def SIGMA_PREFIX_def chunk_data_def toy_fields
        toy_parseInt10_zero)
qed

text \<open>
  Three SIGMA segments, the middle one truncated after its third push: the records of the
  first and of the third come out, with the indices 0 and 2.
\<close>

theorem Sigma_decode_skips_short_segment_witness:
  "Sigma_decode toy_sdk three_segments =
     Inr [\<lparr>bitcomIndex = Some 0, algorithm = ''BSM'', address = ''A'', signature = [1, 2],
           vin = Num 0, valid = None\<rparr>,
          \<lparr>bitcomIndex = Some 2, algorithm = ''BSM'', address = ''A'', signature = [1, 2],
           vin = Num 0, valid = None\<rparr>]"
proof -
  have a: "(1::nat) < length (protocols three_segments)" by (simp add: three_segments_def)
  have b: "protocol (protocols three_segments ! 1) = SIGMA_PREFIX"
    by (simp add: three_segments_def SIGMA_PREFIX_def)
  have c: "Script_fromBinary toy_sdk (script (protocols three_segments ! 1)) =
      Inr [\<lparr>op = 3, data = Some [66, 83, 77]\<rparr>, \<lparr>op = 1, data = Some [65]\<rparr>,
           \<lparr>op = 2, data = Some [1, 2]\<rparr>]"
    by (simp add: three_segments_def toy_sdk_def parse_truncated_script)
  have d: "length [\<lparr>op = 3, data = Some [66, 83, 77]\<rparr>, \<lparr>op = 1, data = Some [65]\<rparr>,
           \<lparr>op = 2, data = Some [1, 2 :: int]\<rparr>] < 4" by simp
  have u: "[0..<length (protocols three_segments)] = [0, 1, 2]"
    by (simp add: three_segments_def upt_conv_Cons)
  have p: "protocols three_segments ! 0 = \<lparr>protocol = ''SIGMA'', script = short_script, pos = 0\<rparr>"
    "protocols three_segments ! 2 = \<lparr>protocol = ''SIGMA'', script = short_script, pos = 22\<rparr>"
    by (simp_all add: three_segments_def)
  from Sigma_decode_skips_short_segment [OF a b c d, THEN conjunct1]
  show ?thesis
    unfolding u by (simp add: map_filter_simps p spec_segment_record_short_script)
qed

lemma Sigma_decode_one_segment: "Sigma_decode toy_sdk one_segment = Inr [short_record]"
proof -
  have "segment_record toy_sdk (protocols one_segment) 0 = Some short_record"
    by (simp add: segment_record_def decode_segment_def one_segment_def toy_sdk_def
        SIGMA_PREFIX_def parse_short_script chunk_data_def toy_parseInt10_zero toy_text
        short_record_def del: list.map)
  moreover have "[0..<length (protocols one_segment)] = [0]"
    by (simp add: one_segment_def)
  ultimately show ?thesis by (simp add: Sigma_decode_char map_filter_simps)
qed

text \<open>
  Claim C4, as stated, fails: \<open>decode\<close> checks no length. A segment whose third push
  holds two bytes decodes to a BSM record with a two-byte signature.
\<close>

theorem Sigma_decode_signature_length_counterexample:
  "Sigma_decode toy_sdk one_segment = Inr [short_record]
   \<and> algorithm short_record = Algorithm_BSM
   \<and> length (signature short_record) \<noteq> 65"
  using Sigma_decode_one_segment by (simp add: short_record_def Algorithm_BSM_def)

text \<open>
  Claim C4, amended. Every record that \<open>decode\<close> returns comes from a SIGMA segment with
  at least four chunks, and its signature is the data of the third chunk, copied as it is
  (so it has 65 bytes exactly when that push has 65 bytes).
\<close>

theorem Sigma_decode_signature_verbatim:
  assumes "Sigma_decode env bitcom = Inr sigmas" and "s \<in> set sigmas"
  shows "\<exists>i cs. i < length (protocols bitcom)
           \<and> protocol (protocols bitcom ! i) = SIGMA_PREFIX
           \<and> bitcomIndex s = Some (int i)
           \<and> Script_fromBinary env (script (protocols bitcom ! i)) = Inr cs
           \<and> 4 \<le> length cs
           \<and> signature s = chunk_data (cs ! 2)"
proof -
  from assms have "s \<in> set (List.map_filter (segment_record env (protocols bitcom))
                              [0..<length (protocols bitcom)])"
    by (simp add: Sigma_decode_char)
  then obtain i where i: "i < length (protocols bitcom)"
      and r: "segment_record env (protocols bitcom) i = Some s"
    by (auto simp: set_map_filter)
  from segment_record_SomeD [OF r] i show ?thesis by blast
qed

text \<open>
  The amended statement at the one-segment script above.
\<close>

theorem Sigma_decode_signature_verbatim_witness:
  "\<exists>i cs. i < length (protocols one_segment)
           \<and> protocol (protocols one_segment ! i) = SIGMA_PREFIX
           \<and> bitcomIndex short_record = Some (int i)
           \<and> Script_fromBinary toy_sdk (script (protocols one_segment ! i)) = Inr cs
           \<and> 4 \<le> length cs
           \<and> signature short_record = chunk_data (cs ! 2)"
proof -
  have "short_record \<in> set [short_record]" by simp
  with Sigma_decode_one_segment show ?thesis
    by (rule Sigma_decode_signature_verbatim)
qed

section \<open>Verification of the Lock template\<close>

subsection \<open>Hexadecimal strings\<close>

lemma hexval_hexchars_all: "\<forall>n\<in>set [0..<16]. hexval (hexchars ! n) = Some (int n)"
  by code_simp

lemma hexval_hexchars: "n < 16 \<Longrightarrow> hexval (hexchars ! n) = Some (int n)"
  using hexval_hexchars_all by simp

lemma length_byte_hex [simp]: "length (byte_hex b) = 2"
  by (simp add: byte_hex_def)

lemma toHex_Nil [simp]: "toHex [] = []"
  by (simp add: toHex_def)

lemma toHex_Cons: "toHex (b # bs) = byte_hex b @ toHex bs"
  by (simp add: toHex_def)

lemma toHex_append: "toHex (xs @ ys) = toHex xs @ toHex ys"
  by (simp add: toHex_def)

lemma length_toHex [simp]: "length (toHex bs) = 2 * length bs"
  by (induction bs) (simp_all add: toHex_Cons)

lemma unat_byte_split: "uint (b :: byte) = 16 * int (unat b div 16) + int (unat b mod 16)"
proof -
  have "int (unat b) = int (16 * (unat b div 16) + unat b mod 16)"
    by (simp only: mult_div_mod_eq)
  also have "\<dots> = 16 * int (unat b div 16) + int (unat b mod 16)"
    by (simp only: of_nat_add of_nat_mult of_nat_numeral)
  finally show ?thesis by (simp only: uint_nat)
qed

lemma unat_byte_div16: "unat (b :: byte) div 16 < 16"
proof -
  have "unat b < 2 ^ LENGTH(8)" by (rule unsigned_less)
  then show ?thesis by simp
qed

lemma hex_pairs_byte_hex: "hex_pairs (byte_hex b @ rest) = uint b # hex_pairs rest"
proof -
  have "hexval (hexchars ! (unat b div 16)) = Some (int (unat b div 16))"
    by (rule hexval_hexchars) (rule unat_byte_div16)
  moreover have "hexval (hexchars ! (unat b mod 16)) = Some (int (unat b mod 16))"
    by (rule hexval_hexchars) simp
  ultimately have "hex_pairs (byte_hex b @ rest)
      = (16 * int (unat b div 16) + int (unat b mod 16)) # hex_pairs rest"
    by (simp add: byte_hex_def)
  then show ?thesis by (simp only: unat_byte_split [symmetric])
qed


lemma hex_pairs_toHex: "hex_pairs (toHex bs) = map uint bs"
  by (induction bs) (simp_all add: toHex_Cons hex_pairs_byte_hex)

lemma toArray_hex_toHex: "toArray_hex (toHex bs) = map uint bs"
  by (simp add: toArray_hex_def hex_pairs_toHex)

lemma toHex_inj: "toHex xs = toHex ys \<Longrightarrow> xs = ys"
proof -
  assume "toHex xs = toHex ys"
  then have "hex_pairs (toHex xs) = hex_pairs (toHex ys)" by simp
  then have "map uint xs = map uint ys" by (simp only: hex_pairs_toHex)
  moreover have "inj (uint :: byte \<Rightarrow> int)" by (rule injI) (simp add: word_uint_eq_iff)
  ultimately show "xs = ys" by (simp only: inj_map_eq_map)
qed

lemma take_toHex: "take (2 * n) (toHex bs) = toHex (take n bs)"
proof (induction bs arbitrary: n)
  case Nil
  then show ?case by simp
next
  case (Cons b bs)
  show ?case
  proof (cases n)
    case 0
    then show ?thesis by simp
  next
    case (Suc m)
    then show ?thesis using Cons [of m] by (simp add: toHex_Cons)
  qed
qed

lemma drop_toHex: "drop (2 * n) (toHex bs) = toHex (drop n bs)"
proof (induction bs arbitrary: n)
  case Nil
  then show ?case by simp
next
  case (Cons b bs)
  show ?case
  proof (cases n)
    case 0
    then show ?thesis by simp
  next
    case (Suc m)
    then show ?thesis using Cons [of m] by (simp add: toHex_Cons)
  qed
qed

lemma js_slice_nat: "js_slice s (int a) (int b) = take (b - a) (drop a s)"
proof (cases "a < length s")
  case True
  show ?thesis
  proof (cases "b < length s")
    case True
    with \<open>a < length s\<close> show ?thesis by (simp add: js_slice_def Let_def min_def nat_diff_distrib')
  next
    case False
    with \<open>a < length s\<close> show ?thesis by (simp add: js_slice_def Let_def min_def nat_diff_distrib')
  qed
next
  case False
  then show ?thesis by (simp add: js_slice_def Let_def min_def)
qed

lemma hexval_signs:
  "hexval CHR ''-'' = None" "hexval CHR ''+'' = None"
  "hexval CHR ''x'' = None" "hexval CHR ''X'' = None"
  by (simp_all add: hexval_def)

lemma hexval_not_space: "hexval c = Some v \<Longrightarrow> \<not> is_space c"
  by (auto simp: hexval_def is_space_def Let_def split: if_splits)

lemma parseInt16_two_digits:
  assumes "hexval c = Some v" and "hexval d = Some w"
  shows "parseInt16 [c, d] = Some (16 * v + w)"
proof -
  have c: "\<not> is_space c" "c \<noteq> CHR ''-''" "c \<noteq> CHR ''+''"
    using assms(1) hexval_not_space hexval_signs by auto
  have d: "d \<noteq> CHR ''x''" "d \<noteq> CHR ''X''"
    using assms(2) hexval_signs by auto
  show ?thesis
    using c d assms by (simp add: parseInt16_def hexdigits_value_def)
qed

lemma parseInt16_byte_hex: "parseInt16 (byte_hex b) = Some (uint b)"
proof -
  have "hexval (hexchars ! (unat b div 16)) = Some (int (unat b div 16))"
    by (rule hexval_hexchars) (rule unat_byte_div16)
  moreover have "hexval (hexchars ! (unat b mod 16)) = Some (int (unat b mod 16))"
    by (rule hexval_hexchars) simp
  ultimately have "parseInt16 (byte_hex b) = Some (16 * int (unat b div 16) + int (unat b mod 16))"
    unfolding byte_hex_def by (rule parseInt16_two_digits)
  then show ?thesis by (simp only: unat_byte_split [symmetric])
qed

subsection \<open>The 32-bit operators on bytes\<close>

lemma ToInt32_id: "- (2 ^ 31) \<le> x \<Longrightarrow> x < 2 ^ 31 \<Longrightarrow> ToInt32 x = x"
  unfolding ToInt32_def by (rule signed_take_bit_int_eq_self)

lemma ToInt32_idem [simp]: "ToInt32 (ToInt32 x) = ToInt32 x"
  by (simp add: ToInt32_def)

lemma ToInt32_or: "ToInt32 x OR ToInt32 y = ToInt32 (x OR y)"
  unfolding ToInt32_def by (rule bit_eqI) (simp add: bit_simps)

lemma js_and_255: "0 \<le> n \<Longrightarrow> n < 2 ^ 31 \<Longrightarrow> js_and n 0xff = n mod 256"
proof -
  assume n: "0 \<le> n" "n < 2 ^ 31"
  have "(255 :: int) = mask 8" by (simp add: mask_eq_exp_minus_1)
  then have "n AND 255 = take_bit 8 n" by (simp only: take_bit_eq_mask)
  also have "\<dots> = n mod 256" by (simp add: take_bit_eq_mod)
  finally show ?thesis using n by (simp add: js_and_def ToInt32_id)
qed

lemma js_sar_8: "0 \<le> n \<Longrightarrow> n < 2 ^ 31 \<Longrightarrow> js_sar n 8 = n div 256"
  by (simp add: js_sar_def ToInt32_id drop_bit_eq_div)

lemma encodeBlockHeight_loop_le_bytes:
  "0 \<le> n \<Longrightarrow> n < 2 ^ 31 \<Longrightarrow> encodeBlockHeight_loop n acc = acc @ le_bytes (nat n)"
proof (induction n acc rule: encodeBlockHeight_loop.induct)
  case (1 n bytes)
  show ?case
  proof (cases "n > 0")
    case False
    with "1.prems" have "n = 0" by simp
    then show ?thesis by (simp add: encodeBlockHeight_loop.simps le_bytes.simps)
  next
    case True
    have d: "js_sar n 8 = n div 256" using "1.prems" by (rule js_sar_8)
    have m: "js_and n 0xff = n mod 256" using "1.prems" by (rule js_and_255)
    have r: "0 \<le> n div 256" "n div 256 < 2 ^ 31" using "1.prems" True by simp_all
    have "encodeBlockHeight_loop n bytes = encodeBlockHeight_loop (n div 256) (bytes @ [n mod 256])"
      using True by (subst encodeBlockHeight_loop.simps) (simp add: d m)
    also have "\<dots> = (bytes @ [n mod 256]) @ le_bytes (nat (n div 256))"
      using "1.IH" [OF True] r by (simp add: d m)
    also have "\<dots> = bytes @ le_bytes (nat n)"
    proof -
      have "nat n \<noteq> 0" using True by simp
      moreover have "int (nat n mod 256) = n mod 256" using True by (simp add: zmod_int)
      moreover have "nat n div 256 = nat (n div 256)" using True by (simp add: nat_div_distrib)
      ultimately show ?thesis by (subst (2) le_bytes.simps) simp
    qed
    finally show ?thesis .
  qed
qed

lemma le_value_le_bytes: "le_value (le_bytes m) = int m"
proof (induction m rule: le_bytes.induct)
  case (1 m)
  show ?case
  proof (cases "m = 0")
    case True
    then show ?thesis by (simp add: le_bytes.simps)
  next
    case False
    have "le_value (le_bytes m) = int (m mod 256) + 256 * le_value (le_bytes (m div 256))"
      using False by (subst le_bytes.simps) simp
    also have "\<dots> = int (m mod 256) + 256 * int (m div 256)"
      using "1.IH" [OF False] by simp
    also have "\<dots> = int m"
    proof -
      have "int m = int (m mod 256 + 256 * (m div 256))" by (simp only: mod_mult_div_eq)
      also have "\<dots> = int (m mod 256) + 256 * int (m div 256)"
        by (simp only: of_nat_add of_nat_mult of_nat_numeral)
      finally show ?thesis by simp
    qed
    finally show ?thesis .
  qed
qed

lemma is_bytes_le_bytes: "is_bytes (le_bytes m)"
proof (induction m rule: le_bytes.induct)
  case (1 m)
  show ?case
  proof (cases "m = 0")
    case True
    then show ?thesis by (simp add: le_bytes.simps is_bytes_def)
  next
    case False
    then show ?thesis using "1.IH" [OF False]
      by (subst le_bytes.simps) (simp add: is_bytes_def)
  qed
qed

lemma le_bytes_nonempty: "m \<noteq> 0 \<Longrightarrow> le_bytes m \<noteq> []"
  by (subst le_bytes.simps) simp

lemma last_le_bytes_pos: "m \<noteq> 0 \<Longrightarrow> 0 < last (le_bytes m)"
proof (induction m rule: le_bytes.induct)
  case (1 m)
  show ?case
  proof (cases "m div 256 = 0")
    case True
    then have "le_bytes m = [int (m mod 256)]"
      using "1.prems" by (subst le_bytes.simps) (simp add: le_bytes.simps)
    moreover have "m mod 256 = m" using True by (simp add: div_eq_0_iff)
    ultimately show ?thesis using "1.prems" by simp
  next
    case False
    then have "le_bytes m = int (m mod 256) # le_bytes (m div 256)"
      using "1.prems" by (subst le_bytes.simps) simp
    moreover have "le_bytes (m div 256) \<noteq> []" using False by (rule le_bytes_nonempty)
    ultimately show ?thesis using "1.IH" [OF "1.prems" False] by simp
  qed
qed

lemma length_le_bytes_le: "m < 256 ^ k \<Longrightarrow> length (le_bytes m) \<le> k"
proof (induction m arbitrary: k rule: le_bytes.induct)
  case (1 m)
  show ?case
  proof (cases "m = 0")
    case True
    then show ?thesis by (simp add: le_bytes.simps)
  next
    case False
    with "1.prems" obtain j where k: "k = Suc j" by (cases k) auto
    with "1.prems" have "m div 256 < 256 ^ j"
      by (simp add: less_mult_imp_div_less)
    then have "length (le_bytes (m div 256)) \<le> j" using "1.IH" [OF False] by simp
    then show ?thesis using False k by (subst le_bytes.simps) simp
  qed
qed


lemma le_value_append: "le_value (xs @ ys) = le_value xs + 256 ^ length xs * le_value ys"
  by (induction xs) (simp_all add: algebra_simps)

lemma le_value_bounds: "is_bytes bs \<Longrightarrow> 0 \<le> le_value bs \<and> le_value bs < 256 ^ length bs"
proof (induction bs)
  case Nil
  then show ?case by simp
next
  case (Cons b bs)
  then have b: "0 \<le> b" "b < 256" and ih: "0 \<le> le_value bs" "le_value bs < 256 ^ length bs"
    by (simp_all add: is_bytes_def)
  from ih(2) have "le_value bs + 1 \<le> 256 ^ length bs" by simp
  then have "256 * (le_value bs + 1) \<le> 256 * 256 ^ length bs" by simp
  with b ih(1) show ?case by simp
qed

lemma bit_bounded: "0 \<le> (m :: int) \<Longrightarrow> m < 2 ^ k \<Longrightarrow> bit m j \<Longrightarrow> j < k"
proof -
  assume "0 \<le> m" "m < 2 ^ k" "bit m j"
  then have "take_bit k m = m" by (simp add: take_bit_int_eq_self)
  then have "bit (take_bit k m) j" using \<open>bit m j\<close> by simp
  then show "j < k" by (simp add: bit_take_bit_iff)
qed

lemma or_push_bit_add:
  "0 \<le> (x :: int) \<Longrightarrow> x < 2 ^ k \<Longrightarrow> x OR push_bit k b = x + 2 ^ k * b"
proof -
  assume "0 \<le> x" "x < 2 ^ k"
  then have t: "take_bit k x = x" by (simp add: take_bit_int_eq_self)
  have "x OR push_bit k b = concat_bit k x b" by (simp add: concat_bit_def t)
  also have "\<dots> = x + push_bit k b" by (simp add: concat_bit_eq t)
  finally show ?thesis by (simp add: push_bit_eq_mult mult.commute)
qed

lemma pow256: "(256 :: int) ^ i = 2 ^ (8 * i)"
proof -
  have "(256 :: int) = 2 ^ 8" by simp
  then show ?thesis by (simp only: power_mult [symmetric])
qed

lemma js_shl_byte:
  assumes "0 \<le> b" "b < 256" "i < 4"
  shows "js_shl b (8 * int i) = ToInt32 (push_bit (8 * i) b)"
proof -
  have b: "ToInt32 b = b" using assms by (intro ToInt32_id) simp_all
  have k: "nat ((8 * int i) mod 32) = 8 * i" using assms(3) by simp
  show ?thesis by (simp only: js_shl_def k b)
qed

lemma decode_step:
  assumes "0 \<le> x" "x < 256 ^ i" "0 \<le> b" "b < 256" "i < 4"
  shows "js_or (ToInt32 x) (js_shl b (8 * int i)) = ToInt32 (x + 256 ^ i * b)"
proof -
  have "js_or (ToInt32 x) (js_shl b (8 * int i)) = ToInt32 x OR ToInt32 (push_bit (8 * i) b)"
    using assms by (simp add: js_or_def js_shl_byte)
  also have "\<dots> = ToInt32 (x OR push_bit (8 * i) b)" by (rule ToInt32_or)
  also have "x OR push_bit (8 * i) b = x + 2 ^ (8 * i) * b"
    using assms(1,2) by (intro or_push_bit_add) (simp_all add: pow256)
  finally show ?thesis by (simp add: pow256)
qed

lemma is_bytes_take: "is_bytes bs \<Longrightarrow> is_bytes (take i bs)"
  unfolding is_bytes_def list_all_iff by (auto dest: in_set_takeD)

lemma is_bytes_nth: "is_bytes bs \<Longrightarrow> i < length bs \<Longrightarrow> 0 \<le> bs ! i \<and> bs ! i < 256"
  unfolding is_bytes_def list_all_iff by simp

lemma decodeBlockHeight_loop_value:
  "is_bytes bs \<Longrightarrow> length bs \<le> 4 \<Longrightarrow> i \<le> length bs \<Longrightarrow> result = ToInt32 (le_value (take i bs))
   \<Longrightarrow> decodeBlockHeight_loop bs i result = ToInt32 (le_value bs)"
proof (induction bs i result rule: decodeBlockHeight_loop.induct)
  case (1 bytes i result)
  show ?case
  proof (cases "i < length bytes")
    case False
    with "1.prems" show ?thesis by (simp add: decodeBlockHeight_loop.simps)
  next
    case True
    let ?x = "le_value (take i bytes)"
    have bx: "0 \<le> ?x \<and> ?x < 256 ^ i"
      using le_value_bounds [OF is_bytes_take [OF "1.prems"(1)], of i] True by (simp add: min_def)
    have bb: "0 \<le> bytes ! i \<and> bytes ! i < 256" using "1.prems"(1) True by (rule is_bytes_nth)
    have i4: "i < 4" using True "1.prems"(2) by simp
    have "take (i + 1) bytes = take i bytes @ [bytes ! i]"
      using True by (simp add: take_Suc_conv_app_nth)
    then have "le_value (take (i + 1) bytes) = ?x + 256 ^ i * (bytes ! i)"
      using True by (simp add: le_value_append min_def)
    then have "js_or result (js_shl (bytes ! i) (8 * int i)) = ToInt32 (le_value (take (i + 1) bytes))"
      using decode_step [of ?x i "bytes ! i"] bx bb i4 "1.prems"(4) by simp
    then have "decodeBlockHeight_loop bytes (i + 1) (js_or result (js_shl (bytes ! i) (8 * int i)))
               = ToInt32 (le_value bytes)"
      using "1.IH" [OF True "1.prems"(1,2)] True by simp
    then show ?thesis using True by (subst decodeBlockHeight_loop.simps) simp
  qed
qed

lemma sign_clear:
  assumes "0 \<le> m" "m < 2 ^ k" "k \<le> 31"
  shows "ToInt32 (m + 2 ^ k) AND NOT (ToInt32 (2 ^ k)) = m"
proof -
  have "m + 2 ^ k = m OR push_bit k 1"
    using or_push_bit_add [of m k 1] assms by simp
  then have e: "m + 2 ^ k = m OR 2 ^ k" by (simp add: push_bit_eq_mult)
  have nb: "\<And>j. bit m j \<Longrightarrow> j < k" using assms(1,2) by (rule bit_bounded)
  show ?thesis
    unfolding e ToInt32_def
  proof (rule bit_eqI)
    fix n
    show "bit (signed_take_bit 31 (m OR 2 ^ k) AND NOT (signed_take_bit 31 (2 ^ k))) n = bit m n"
      using nb [of n] nb [of 31] nb [of k] assms(3)
      by (auto simp add: bit_simps min_def)
  qed
qed

subsection \<open>The number codec\<close>

lemma js_and_0x80: "0 \<le> b \<Longrightarrow> b < 256 \<Longrightarrow> (js_and b 0x80 \<noteq> 0) = (128 \<le> b)"
proof -
  assume b: "0 \<le> b" "b < 256"
  have "js_and b 0x80 = b AND 128" using b by (simp add: js_and_def ToInt32_id)
  also have "(b AND 128 \<noteq> 0) = bit b 7"
    using and_exp_eq_0_iff_not_bit [of b 7] by simp
  also have "bit b 7 = (128 \<le> b)"
  proof -
    have "bit b 7 = odd (b div 128)" by (simp add: bit_iff_odd)
    moreover have "b div 128 = 0 \<or> b div 128 = 1" using b by auto
    moreover have "(b div 128 = 1) = (128 \<le> b)" using b by auto
    ultimately show ?thesis by auto
  qed
  finally show ?thesis .
qed

lemma js_or_0x80: "0 \<le> b \<Longrightarrow> b < 128 \<Longrightarrow> js_or b 0x80 = b OR 0x80 \<and> b OR 0x80 = b + 128"
proof -
  assume b: "0 \<le> b" "b < 128"
  have "js_or b 0x80 = b OR 128" using b by (simp add: js_or_def ToInt32_id)
  moreover have "b OR push_bit 7 1 = b + 2 ^ 7 * 1" using b by (intro or_push_bit_add) simp_all
  ultimately show ?thesis by simp
qed


lemma list_update_last: "xs \<noteq> [] \<Longrightarrow> xs[length xs - Suc 0 := x] = butlast xs @ [x]"
proof -
  assume "xs \<noteq> []"
  then have "xs = butlast xs @ [last xs]" by simp
  then have "xs[length xs - Suc 0 := x] = (butlast xs @ [last xs])[length (butlast xs) := x]" by simp
  then show ?thesis by (simp only: list_update_length)
qed

lemma last_le_bytes_less: "m \<noteq> 0 \<Longrightarrow> last (le_bytes m) < 256"
proof -
  assume "m \<noteq> 0"
  then have "le_bytes m \<noteq> []" by (rule le_bytes_nonempty)
  then have "last (le_bytes m) \<in> set (le_bytes m)" by simp
  with is_bytes_le_bytes [of m] show ?thesis by (simp add: is_bytes_def list_all_iff)
qed

lemma encodeBlockHeight_push:
  assumes "n \<noteq> 0" "\<not> (1 \<le> n \<and> n \<le> 16)" "n \<noteq> - 1" "\<bar>n\<bar> < 2 ^ 31"
  shows "encodeBlockHeight n =
     [\<lparr>op = int (length (spec_push_payload (le_bytes (nat \<bar>n\<bar>)) (n < 0))),
       data = Some (spec_push_payload (le_bytes (nat \<bar>n\<bar>)) (n < 0))\<rparr>]"
proof -
  let ?m = "le_bytes (nat \<bar>n\<bar>)"
  have abs: "(if n < 0 then - n else n) = \<bar>n\<bar>" by simp
  have loop: "encodeBlockHeight_loop \<bar>n\<bar> [] = ?m"
    using assms(4) encodeBlockHeight_loop_le_bytes [of "\<bar>n\<bar>" "[]"] by simp
  have nz: "nat \<bar>n\<bar> \<noteq> 0" using assms(1) by simp
  have ne: "?m \<noteq> []" using nz by (rule le_bytes_nonempty)
  have top: "0 \<le> last ?m" "last ?m < 256"
    using last_le_bytes_pos [OF nz] last_le_bytes_less [OF nz] by simp_all
  have hi: "(js_and (last ?m) 0x80 \<noteq> 0) = (128 \<le> last ?m)" using top by (rule js_and_0x80)
  have or80: "\<not> 128 \<le> last ?m \<Longrightarrow> js_or (last ?m) 0x80 = last ?m OR 0x80"
    using top js_or_0x80 [of "last ?m"] by simp
  show ?thesis
  proof (cases "n < 0")
    case True
    then have l: "encodeBlockHeight_loop (- n) [] = le_bytes (nat (- n))"
      and m: "le_bytes (nat \<bar>n\<bar>) = le_bytes (nat (- n))" using loop by simp_all
    show ?thesis
    proof (cases "128 \<le> last ?m")
      case hb: True
      then show ?thesis using assms(1-3) ne hi True
        by (simp add: encodeBlockHeight_def l m spec_push_payload_def Let_def)
    next
      case hb: False
      then show ?thesis using assms(1-3) ne hi True or80
        by (simp add: encodeBlockHeight_def l m spec_push_payload_def Let_def list_update_last)
    qed
  next
    case False
    then have l: "encodeBlockHeight_loop n [] = le_bytes (nat n)"
      and m: "le_bytes (nat \<bar>n\<bar>) = le_bytes (nat n)" using loop by simp_all
    show ?thesis
    proof (cases "128 \<le> last ?m")
      case hb: True
      then show ?thesis using assms(1-3) ne hi False
        by (simp add: encodeBlockHeight_def l m spec_push_payload_def Let_def)
    next
      case hb: False
      then show ?thesis using assms(1-3) ne hi False
        by (simp add: encodeBlockHeight_def l m spec_push_payload_def Let_def)
    qed
  qed
qed


lemma le_value_last_small:
  assumes "is_bytes bs" "bs \<noteq> []" "last bs < 128"
  shows "le_value bs < 2 ^ (8 * length bs - 1)"
proof -
  have split: "bs = butlast bs @ [last bs]" using assms(2) by simp
  have ib: "is_bytes (butlast bs)"
    using assms(1) unfolding is_bytes_def list_all_iff by (auto dest: in_set_butlastD)
  have b: "le_value (butlast bs) < 256 ^ length (butlast bs)"
    using le_value_bounds [OF ib] by simp
  have "le_value bs = le_value (butlast bs) + 256 ^ length (butlast bs) * last bs"
    using le_value_append [of "butlast bs" "[last bs]"] split by simp
  also have "\<dots> \<le> le_value (butlast bs) + 256 ^ length (butlast bs) * 127"
    using assms(3) by simp
  also have "\<dots> < 256 ^ length (butlast bs) + 256 ^ length (butlast bs) * 127"
    using b by simp
  also have "\<dots> = 2 ^ 7 * 2 ^ (8 * length (butlast bs))" by (simp add: pow256)
  also have "\<dots> = 2 ^ (7 + 8 * length (butlast bs))" by (simp only: power_add)
  also have "7 + 8 * length (butlast bs) = 8 * length bs - 1" using assms(2) by (cases bs) simp_all
  finally show ?thesis .
qed

lemma le_value_last_big:
  assumes "is_bytes bs" "bs \<noteq> []" "128 \<le> last bs"
  shows "2 ^ (8 * length bs - 1) \<le> le_value bs"
proof -
  have split: "bs = butlast bs @ [last bs]" using assms(2) by simp
  have ib: "is_bytes (butlast bs)"
    using assms(1) unfolding is_bytes_def list_all_iff by (auto dest: in_set_butlastD)
  have b: "0 \<le> le_value (butlast bs)" using le_value_bounds [OF ib] by simp
  have e: "7 + 8 * length (butlast bs) = 8 * length bs - 1" using assms(2) by (cases bs) simp_all
  have "(2::int) ^ (7 + 8 * length (butlast bs)) = 256 ^ length (butlast bs) * 128"
    by (simp add: power_add pow256)
  also have "\<dots> \<le> 256 ^ length (butlast bs) * last bs" using assms(3) by simp
  also have "\<dots> \<le> le_value (butlast bs) + 256 ^ length (butlast bs) * last bs" using b by simp
  also have "\<dots> = le_value bs"
    using le_value_append [of "butlast bs" "[last bs]"] split by simp
  finally show ?thesis by (simp only: e)
qed


lemma ToInt32_not: "ToInt32 (NOT (ToInt32 x)) = NOT (ToInt32 x)"
  unfolding ToInt32_def by (rule bit_eqI) (simp add: bit_simps)

lemma sign_mask:
  assumes "1 \<le> L" "L \<le> 4"
  shows "ToInt32 (js_not (js_shl 0x80 (8 * (int L - 1)))) = NOT (ToInt32 (2 ^ (8 * L - 1)))"
proof -
  have k: "nat ((8 * (int L - 1)) mod 32) = 8 * (L - 1)" using assms by auto
  have b: "ToInt32 128 = 128" by (intro ToInt32_id) simp_all
  have "push_bit (8 * (L - 1)) (128 :: int) = 2 ^ 7 * 2 ^ (8 * (L - 1))"
    by (simp add: push_bit_eq_mult)
  also have "\<dots> = 2 ^ (7 + 8 * (L - 1))" by (simp only: power_add)
  also have "7 + 8 * (L - 1) = 8 * L - 1" using assms by simp
  finally have p: "push_bit (8 * (L - 1)) (128 :: int) = 2 ^ (8 * L - 1)" .
  have "js_shl 0x80 (8 * (int L - 1)) = ToInt32 (2 ^ (8 * L - 1))"
    by (simp only: js_shl_def k b p)
  then show ?thesis by (simp add: js_not_def ToInt32_not)
qed

lemma uint_byte: "0 \<le> x \<Longrightarrow> x < 256 \<Longrightarrow> uint (word_of_int x :: byte) = x"
  by (simp add: uint_word_of_int take_bit_int_eq_self)

lemma map_uint_word_of_int: "is_bytes p \<Longrightarrow> map uint (map word_of_int p :: byte list) = p"
proof (induction p)
  case Nil
  then show ?case by simp
next
  case (Cons b p)
  then have b: "0 \<le> b" "b < 256" and p: "is_bytes p" by (simp_all add: is_bytes_def)
  have "uint (word_of_int b :: byte) = b"
    using b by (simp add: uint_word_of_int take_bit_int_eq_self)
  with Cons.IH [OF p] show ?case by simp
qed

lemma js_slice_head: "js_slice (toHex (b # bs)) 0 2 = byte_hex b"
  using js_slice_nat [of "toHex (b # bs)" 0 2] by (simp add: toHex_Cons)

lemma js_slice_data: "js_slice (toHex (b # bs)) 2 (2 + int (length bs) * 2) = toHex bs"
proof -
  have "js_slice (toHex (b # bs)) 2 (2 + int (length bs) * 2)
      = js_slice (toHex (b # bs)) (int 2) (int (2 + 2 * length bs))"
    by (simp add: mult.commute)
  also have "\<dots> = take (2 * length bs) (drop 2 (toHex (b # bs)))"
    by (simp only: js_slice_nat) simp
  also have "\<dots> = toHex bs" by (simp add: toHex_Cons)
  finally show ?thesis .
qed

lemma decodeBlockHeight_push:
  assumes "is_bytes p" "p \<noteq> []" "length p \<le> 4"
  shows "decodeBlockHeight (toHex (Script_toBinary [\<lparr>op = int (length p), data = Some p\<rparr>])) =
     (let result = ToInt32 (le_value p)
      in if 128 \<le> last p
         then - (ToInt32 result AND NOT (ToInt32 (2 ^ (8 * length p - 1))))
         else result)"
proof -
  let ?L = "length p"
  define lb where "lb = (word_of_int (int ?L) :: byte)"
  define pb where "pb = (map word_of_int p :: byte list)"
  have L: "1 \<le> ?L" using assms(2) by (cases p) simp_all
  have lpb: "length pb = ?L" by (simp add: pb_def)
  have bin: "Script_toBinary [\<lparr>op = int ?L, data = Some p\<rparr>] = lb # pb"
    by (simp add: Script_toBinary_def chunk_bytes_def lb_def pb_def)
  have len: "length (toHex (lb # pb)) \<noteq> 0" by simp
  have ul: "uint lb = int ?L"
    unfolding lb_def by (rule uint_byte) (use assms(3) in simp_all)
  have opc: "parseInt16 (js_slice (toHex (lb # pb)) 0 2) = Some (int ?L)"
    by (simp only: js_slice_head parseInt16_byte_hex ul)
  have s1: "js_slice (toHex (lb # pb)) 2 (2 + int ?L * 2) = toHex pb"
    using js_slice_data [of lb pb] by (simp only: lpb)
  have bytes: "toArray_hex (toHex pb) = p"
    unfolding pb_def by (simp only: toArray_hex_toHex map_uint_word_of_int [OF assms(1)])
  have loop: "decodeBlockHeight_loop p 0 0 = ToInt32 (le_value p)"
    using decodeBlockHeight_loop_value [OF assms(1) assms(3), of 0 0]
    by (simp add: ToInt32_def)
  have lastp: "p ! (?L - 1) = last p" using assms(2) by (simp add: last_conv_nth)
  have lb: "0 \<le> last p" "last p < 256"
    using assms(1,2) last_in_set [OF assms(2)] by (auto simp: is_bytes_def list_all_iff)
  have hi: "(js_and (p ! (?L - 1)) 0x80 \<noteq> 0) = (128 \<le> last p)"
    unfolding lastp using lb by (rule js_and_0x80)
  have mask: "js_and (ToInt32 (le_value p)) (js_not (js_shl 0x80 (8 * (int ?L - 1))))
      = ToInt32 (le_value p) AND NOT (ToInt32 (2 ^ (8 * ?L - 1)))"
    using sign_mask [OF L assms(3)] by (simp add: js_and_def)
  have n0: "int ?L \<noteq> 0" "\<not> (0x51 \<le> int ?L \<and> int ?L \<le> 0x60)" "int ?L \<noteq> 0x4f"
    using assms(2,3) by simp_all
  have "decodeBlockHeight (toHex (lb # pb)) =
     (if js_and (p ! (?L - 1)) 0x80 \<noteq> 0
      then - js_and (ToInt32 (le_value p)) (js_not (js_shl 0x80 (8 * (int ?L - 1))))
      else ToInt32 (le_value p))"
    unfolding decodeBlockHeight_def opc
    using len assms(2,3)
    by (auto simp: s1 bytes loop Let_def)
  then show ?thesis
    unfolding bin by (simp only: hi mask Let_def ToInt32_idem)
qed


lemma decode_push_nonneg:
  assumes "is_bytes p" "p \<noteq> []" "length p \<le> 4" "last p < 128"
    and "le_value p = a" "a < 2 ^ 31"
  shows "decodeBlockHeight (toHex (Script_toBinary [\<lparr>op = int (length p), data = Some p\<rparr>])) = a"
proof -
  have "0 \<le> a" using le_value_bounds [OF assms(1)] assms(5) by simp
  then have "ToInt32 a = a" using assms(6) by (intro ToInt32_id) simp_all
  then show ?thesis
    using decodeBlockHeight_push [OF assms(1-3)] assms(4,5) by (simp add: Let_def)
qed

lemma decode_push_neg:
  assumes "is_bytes p" "p \<noteq> []" "length p \<le> 4" "128 \<le> last p"
    and "le_value p = a + 2 ^ (8 * length p - 1)" "0 \<le> a" "a < 2 ^ (8 * length p - 1)"
  shows "decodeBlockHeight (toHex (Script_toBinary [\<lparr>op = int (length p), data = Some p\<rparr>])) = - a"
proof -
  have k: "8 * length p - 1 \<le> 31" using assms(3) by simp
  have "ToInt32 (a + 2 ^ (8 * length p - 1)) AND NOT (ToInt32 (2 ^ (8 * length p - 1))) = a"
    using assms(6,7) k by (rule sign_clear)
  then show ?thesis
    using decodeBlockHeight_push [OF assms(1-3)] assms(4,5) by (simp add: Let_def)
qed

lemma is_bytes_append: "is_bytes (xs @ ys) = (is_bytes xs \<and> is_bytes ys)"
  by (simp add: is_bytes_def)

lemma is_bytes_butlast: "is_bytes xs \<Longrightarrow> is_bytes (butlast xs)"
  unfolding is_bytes_def list_all_iff by (auto dest: in_set_butlastD)

lemma codec_roundtrip_push:
  assumes "0 < a" "a < 2 ^ 31"
  shows "decodeBlockHeight (toHex (Script_toBinary
            [\<lparr>op = int (length (spec_push_payload (le_bytes (nat a)) neg)),
              data = Some (spec_push_payload (le_bytes (nat a)) neg)\<rparr>]))
         = (if neg then - a else a)"
proof -
  let ?m = "le_bytes (nat a)"
  let ?n = "length ?m"
  have nz: "nat a \<noteq> 0" using assms(1) by simp
  have ib: "is_bytes ?m" by (rule is_bytes_le_bytes)
  have ne: "?m \<noteq> []" using nz by (rule le_bytes_nonempty)
  have val: "le_value ?m = a" using assms(1) by (simp add: le_value_le_bytes)
  have top: "0 < last ?m" "last ?m < 256"
    using last_le_bytes_pos [OF nz] last_le_bytes_less [OF nz] by simp_all
  have "nat a < 256 ^ 4" using assms by (simp add: nat_less_iff)
  then have n4: "?n \<le> 4" by (rule length_le_bytes_le)
  have n1: "1 \<le> ?n" using ne by (cases ?m) simp_all
  show ?thesis
  proof (cases "128 \<le> last ?m")
    case True
    have "(2::int) ^ (8 * ?n - 1) \<le> a" using le_value_last_big [OF ib ne True] val by simp
    with assms(2) have "(2::int) ^ (8 * ?n - 1) < 2 ^ 31" by simp
    then have "8 * ?n - 1 < 31" by (simp only: power_strict_increasing_iff)
    then have n3: "?n \<le> 3" by simp
    have a8: "a < 2 ^ (8 * ?n)" using le_value_bounds [OF ib] val by (simp add: pow256)
    show ?thesis
    proof (cases neg)
      case False
      have p: "spec_push_payload ?m neg = ?m @ [0]"
        using True False by (simp add: spec_push_payload_def)
      have "decodeBlockHeight (toHex (Script_toBinary
            [\<lparr>op = int (length (?m @ [0])), data = Some (?m @ [0])\<rparr>])) = a"
        using ib n3 assms(2) val
        by (intro decode_push_nonneg) (simp_all add: is_bytes_append is_bytes_def le_value_append)
      then show ?thesis unfolding p using False by simp
    next
      case neg: True
      have p: "spec_push_payload ?m neg = ?m @ [128]"
        using True neg by (simp add: spec_push_payload_def)
      have e: "8 * length (?m @ [128]) - 1 = 8 * ?n + 7" by simp
      have v: "le_value (?m @ [128]) = a + 2 ^ (8 * ?n + 7)"
        using val by (simp add: le_value_append pow256 power_add)
      have "a < 2 ^ (8 * ?n) * 2 ^ 7" using a8 assms(1)
        by (smt (verit) mult_less_cancel_left2 zero_less_power)
      then have lt: "a < 2 ^ (8 * ?n + 7)" by (simp only: power_add)
      have "decodeBlockHeight (toHex (Script_toBinary
            [\<lparr>op = int (length (?m @ [128])), data = Some (?m @ [128])\<rparr>])) = - a"
      proof (rule decode_push_neg)
        show "is_bytes (?m @ [128])" using ib by (simp add: is_bytes_append is_bytes_def)
        show "?m @ [128] \<noteq> []" by simp
        show "length (?m @ [128]) \<le> 4" using n3 by simp
        show "128 \<le> last (?m @ [128])" by simp
        show "le_value (?m @ [128]) = a + 2 ^ (8 * length (?m @ [128]) - 1)"
          unfolding e by (rule v)
        show "0 \<le> a" using assms(1) by simp
        show "a < 2 ^ (8 * length (?m @ [128]) - 1)" unfolding e by (rule lt)
      qed
      then show ?thesis unfolding p using neg by simp
    qed
  next
    case False
    show ?thesis
    proof (cases neg)
      case nn: False
      have p: "spec_push_payload ?m neg = ?m"
        using False nn by (simp add: spec_push_payload_def)
      have "decodeBlockHeight (toHex (Script_toBinary
            [\<lparr>op = int (length ?m), data = Some ?m\<rparr>])) = a"
        using ib ne n4 False val assms(2) by (intro decode_push_nonneg) simp_all
      then show ?thesis unfolding p using nn by simp
    next
      case neg: True
      let ?p = "butlast ?m @ [last ?m + 128]"
      have o: "last ?m OR 0x80 = last ?m + 128"
        using top False js_or_0x80 [of "last ?m"] by simp
      have p: "spec_push_payload ?m neg = ?p"
        using False neg by (simp add: spec_push_payload_def o Let_def)
      have lp: "length ?p = ?n" using ne by simp
      have split: "?m = butlast ?m @ [last ?m]" using ne by simp
      have "le_value ?m = le_value (butlast ?m) + 256 ^ length (butlast ?m) * last ?m"
        using le_value_append [of "butlast ?m" "[last ?m]"] split by simp
      then have "le_value ?p = a + 256 ^ length (butlast ?m) * 128"
        using val by (simp add: le_value_append algebra_simps)
      also have "256 ^ length (butlast ?m) * (128 :: int) = 2 ^ (7 + 8 * length (butlast ?m))"
        by (simp add: pow256 power_add)
      also have "7 + 8 * length (butlast ?m) = 8 * ?n - 1" using ne by (cases ?m) simp_all
      finally have v: "le_value ?p = a + 2 ^ (8 * ?n - 1)" .
      have lt: "a < 2 ^ (8 * ?n - 1)"
        using le_value_last_small [OF ib ne] False val by simp
      have "decodeBlockHeight (toHex (Script_toBinary
            [\<lparr>op = int (length ?p), data = Some ?p\<rparr>])) = - a"
      proof (rule decode_push_neg)
        show "is_bytes ?p"
          using is_bytes_butlast [OF ib] top False by (simp add: is_bytes_append is_bytes_def)
        show "?p \<noteq> []" by simp
        show "length ?p \<le> 4" using n4 lp by simp
        show "128 \<le> last ?p" using top by simp
        show "le_value ?p = a + 2 ^ (8 * length ?p - 1)" unfolding lp by (rule v)
        show "0 \<le> a" using assms(1) by simp
        show "a < 2 ^ (8 * length ?p - 1)" unfolding lp by (rule lt)
      qed
      then show ?thesis unfolding p using neg by simp
    qed
  qed
qed


lemma decodeBlockHeight_opcode:
  assumes "uint b = 0 \<or> (0x51 \<le> uint b \<and> uint b \<le> 0x60) \<or> uint b = 0x4f"
  shows "decodeBlockHeight (toHex [b]) =
     (if uint b = 0 then 0 else if uint b = 0x4f then - 1 else uint b - 0x50)"
proof -
  have len: "length (toHex [b]) \<noteq> 0" by simp
  have opc: "parseInt16 (js_slice (toHex [b]) 0 2) = Some (uint b)"
    by (simp only: js_slice_head parseInt16_byte_hex)
  show ?thesis
    unfolding decodeBlockHeight_def opc using len assms by auto
qed

lemma codec_roundtrip:
  assumes "\<bar>h\<bar> < 2 ^ 31"
  shows "decodeBlockHeight (toHex (Script_toBinary (encodeBlockHeight h))) = h"
proof -
  consider (zero) "h = 0" | (small) "1 \<le> h \<and> h \<le> 16" | (minus) "h = - 1"
    | (push) "h \<noteq> 0" "\<not> (1 \<le> h \<and> h \<le> 16)" "h \<noteq> - 1" by blast
  then show ?thesis
  proof cases
    case zero
    have "Script_toBinary (encodeBlockHeight h) = [0 :: byte]"
      using zero by (simp add: encodeBlockHeight_def Script_toBinary_def chunk_bytes_def)
    then show ?thesis using zero decodeBlockHeight_opcode [of 0] by simp
  next
    case small
    define b where "b = (word_of_int (0x50 + h) :: byte)"
    have u: "uint b = 0x50 + h" unfolding b_def by (rule uint_byte) (use small in simp_all)
    have "Script_toBinary (encodeBlockHeight h) = [b]"
      using small by (simp add: encodeBlockHeight_def Script_toBinary_def chunk_bytes_def b_def)
    then show ?thesis using small decodeBlockHeight_opcode [of b] by (simp add: u)
  next
    case minus
    have "Script_toBinary (encodeBlockHeight h) = [0x4f :: byte]"
      using minus by (simp add: encodeBlockHeight_def Script_toBinary_def chunk_bytes_def)
    then show ?thesis using minus decodeBlockHeight_opcode [of "0x4f"] by simp
  next
    case push
    have a: "0 < \<bar>h\<bar>" using push(1) by simp
    show ?thesis
      unfolding encodeBlockHeight_push [OF push assms]
      using codec_roundtrip_push [OF a assms, of "h < 0"] by simp
  qed
qed

subsection \<open>Lock scripts\<close>

lemma LOCK_PREFIX_bytes_eq:
  "LOCK_PREFIX_bytes =
     [32, 211, 127, 77, 224, 209, 199, 53, 180, 213, 26, 85, 114, 223, 15, 61, 145, 4, 209, 217,
      233, 157, 184, 105, 79, 221, 27, 26, 146, 225, 240, 220, 225, 117, 118, 1, 104, 127, 118, 169]"
  by (simp add: LOCK_PREFIX_bytes_def LOCK_PREFIX_def toArray_hex_def hexval_def)

lemma LOCK_SUFFIX_bytes_eq:
  "LOCK_SUFFIX_bytes = [136, 172, 126, 118, 1, 32, 127, 117, 169, 1, 20, 136]"
  by (simp add: LOCK_SUFFIX_bytes_def LOCK_SUFFIX_def toArray_hex_def hexval_def)

lemma toHex_LOCK_PREFIX: "toHex LOCK_PREFIX_bytes = LOCK_PREFIX"
  by (simp add: LOCK_PREFIX_bytes_eq LOCK_PREFIX_def toHex_def byte_hex_def hexchars_def)

lemma toHex_LOCK_SUFFIX: "toHex LOCK_SUFFIX_bytes = LOCK_SUFFIX"
  by (simp add: LOCK_SUFFIX_bytes_eq LOCK_SUFFIX_def toHex_def byte_hex_def hexchars_def)

lemma length_LOCK_PREFIX_bytes: "length LOCK_PREFIX_bytes = 40"
  by (simp add: LOCK_PREFIX_bytes_eq)

lemma length_LOCK_SUFFIX_bytes: "length LOCK_SUFFIX_bytes = 12"
  by (simp add: LOCK_SUFFIX_bytes_eq)

lemma length_LOCK_PREFIX: "length LOCK_PREFIX = 80"
  by (simp add: LOCK_PREFIX_def)

lemma length_LOCK_SUFFIX: "length LOCK_SUFFIX = 24"
  by (simp add: LOCK_SUFFIX_def)

lemma fromHex_LOCK_PREFIX: "Script_toBinary (Script_fromHex LOCK_PREFIX) = LOCK_PREFIX_bytes"
  unfolding Script_fromHex_def LOCK_PREFIX_bytes_def [symmetric]
  by (simp add: LOCK_PREFIX_bytes_eq Script_toBinary_def chunk_bytes_def)

lemma fromHex_LOCK_SUFFIX: "Script_toBinary (Script_fromHex LOCK_SUFFIX) = LOCK_SUFFIX_bytes"
  unfolding Script_fromHex_def LOCK_SUFFIX_bytes_def [symmetric]
  by (simp add: LOCK_SUFFIX_bytes_eq Script_toBinary_def chunk_bytes_def)

lemma toHex_eq_iff: "(toHex xs = toHex ys) = (xs = ys)"
  by (auto dest: toHex_inj)

lemma startsWith_toHex: "startsWith (toHex s) (toHex p) = prefix p s"
proof -
  have "startsWith (toHex s) (toHex p) = (take (2 * length p) (toHex s) = toHex p)"
    by (simp add: startsWith_def)
  also have "\<dots> = (toHex (take (length p) s) = toHex p)" by (simp only: take_toHex)
  also have "\<dots> = (take (length p) s = p)" by (rule toHex_eq_iff)
  also have "\<dots> = prefix p s"
    by (metis append_take_drop_id prefix_def append_eq_conv_conj)
  finally show ?thesis .
qed

lemma endsWith_toHex: "endsWith (toHex s) (toHex p) = suffix p s"
proof (cases "length p \<le> length s")
  case True
  then have e: "2 * length s - 2 * length p = 2 * (length s - length p)" by simp
  have "endsWith (toHex s) (toHex p) = (drop (2 * (length s - length p)) (toHex s) = toHex p)"
    using True by (simp add: endsWith_def e)
  also have "\<dots> = (toHex (drop (length s - length p) s) = toHex p)" by (simp only: drop_toHex)
  also have "\<dots> = (drop (length s - length p) s = p)" by (rule toHex_eq_iff)
  also have "\<dots> = suffix p s"
    by (metis suffix_drop suffix_def append_eq_conv_conj append_take_drop_id length_drop
        diff_diff_cancel True length_append add_diff_cancel_right')
  finally show ?thesis .
next
  case False
  then have "\<not> suffix p s" by (auto dest: suffix_length_le)
  with False show ?thesis by (simp add: endsWith_def)
qed

lemma isLock_iff: "isLock s = (prefix LOCK_PREFIX_bytes s \<and> suffix LOCK_SUFFIX_bytes s)"
  unfolding isLock_def Let_def
  by (simp only: toHex_LOCK_PREFIX [symmetric] toHex_LOCK_SUFFIX [symmetric]
      startsWith_toHex endsWith_toHex)


lemma isLock_length: "isLock s \<Longrightarrow> 12 \<le> length s"
  using suffix_length_le [of LOCK_SUFFIX_bytes s]
  by (simp add: isLock_iff length_LOCK_SUFFIX_bytes)

lemma Lock_decode_not_isLock:
  "\<not> isLock s \<Longrightarrow> Lock_decode s = Inl (Error ''Script is not a valid Lock script'')"
  by (simp add: Lock_decode_def)

lemma slice_pkh: "js_slice (toHex s) 82 122 = toHex (take 20 (drop 41 s))"
proof -
  have "js_slice (toHex s) (int 82) (int 122) = take (122 - 82) (drop 82 (toHex s))"
    by (rule js_slice_nat)
  also have "\<dots> = take (2 * 20) (drop (2 * 41) (toHex s))" by simp
  also have "\<dots> = toHex (take 20 (drop 41 s))" by (simp only: drop_toHex take_toHex)
  finally show ?thesis by simp
qed

lemma slice_until:
  assumes "12 \<le> length s"
  shows "js_slice (toHex s) 122 (int (length (toHex s)) - 24)
     = toHex (take (length s - 73) (drop 61 s))"
proof -
  have e: "int (length (toHex s)) - 24 = int (2 * length s - 24)" using assms by simp
  have "js_slice (toHex s) (int 122) (int (2 * length s - 24))
      = take (2 * length s - 24 - 122) (drop 122 (toHex s))"
    by (rule js_slice_nat)
  also have "2 * length s - 24 - 122 = 2 * (length s - 73)" by simp
  also have "drop 122 (toHex s) = drop (2 * 61) (toHex s)" by simp
  also have "take (2 * (length s - 73)) (drop (2 * 61) (toHex s))
      = toHex (take (length s - 73) (drop 61 s))"
    by (simp only: drop_toHex take_toHex)
  finally show ?thesis unfolding e by simp
qed

lemma Lock_decode_isLock:
  assumes "isLock s"
  shows "Lock_decode s =
     Inr \<lparr>pkh = map uint (take 20 (drop 41 s)),
          until = decodeBlockHeight (toHex (take (length s - 73) (drop 61 s)))\<rparr>"
proof -
  have l12: "12 \<le> length s" using assms by (rule isLock_length)
  have a: "int (length LOCK_PREFIX) + 2 = 82" "int (length LOCK_SUFFIX) = 24"
    by (simp_all add: length_LOCK_PREFIX length_LOCK_SUFFIX)
  have b: "(82 :: int) + 40 = 122" by simp
  have "Lock_decode s =
     Inr \<lparr>pkh = toArray_hex (js_slice (toHex s) 82 122),
          until = decodeBlockHeight (js_slice (toHex s) 122 (int (length (toHex s)) - 24))\<rparr>"
    unfolding Lock_decode_def Let_def a b using assms by (simp only: not_True_eq_False if_False)
  then show ?thesis
    by (simp only: slice_pkh slice_until [OF l12] toArray_hex_toHex)
qed

lemma lock_bytes:
  assumes "fromBase58Check addr = Inr pkh'"
  shows "lock fromBase58Check addr h =
     Inr (LOCK_PREFIX_bytes @ (20 # map word_of_int pkh')
          @ Script_toBinary (encodeBlockHeight h) @ LOCK_SUFFIX_bytes)"
proof -
  have "Script_toBinary (Script_fromHex LOCK_PREFIX @ [\<lparr>op = 20, data = Some pkh'\<rparr>]
            @ encodeBlockHeight h @ Script_fromHex LOCK_SUFFIX)
      = Script_toBinary (Script_fromHex LOCK_PREFIX) @ (20 # map word_of_int pkh')
          @ Script_toBinary (encodeBlockHeight h) @ Script_toBinary (Script_fromHex LOCK_SUFFIX)"
    by (simp add: Script_toBinary_def chunk_bytes_def)
  then show ?thesis using assms
    by (simp add: lock_def fromHex_LOCK_PREFIX fromHex_LOCK_SUFFIX)
qed

lemma lock_roundtrip:
  assumes "fromBase58Check addr = Inr pkh'" "length pkh' = 20"
  shows "\<exists>s. lock fromBase58Check addr h = Inr s \<and> isLock s
     \<and> Lock_decode s =
         Inr \<lparr>pkh = map uint (map word_of_int pkh' :: byte list),
              until = decodeBlockHeight (toHex (Script_toBinary (encodeBlockHeight h)))\<rparr>"
proof -
  define pk where "pk = (map word_of_int pkh' :: byte list)"
  define E where "E = Script_toBinary (encodeBlockHeight h)"
  define s where "s = LOCK_PREFIX_bytes @ (20 # pk) @ E @ LOCK_SUFFIX_bytes"
  have lpk: "length pk = 20" using assms(2) by (simp add: pk_def)
  have l: "lock fromBase58Check addr h = Inr s"
    using lock_bytes [of fromBase58Check addr pkh' h] assms(1) by (simp add: s_def pk_def E_def)
  have il: "isLock s"
    unfolding isLock_iff s_def
    by (simp add: suffix_def)
  have t: "take 20 (drop 41 s) = pk"
    by (simp add: s_def length_LOCK_PREFIX_bytes lpk)
  have d: "drop 61 s = E @ LOCK_SUFFIX_bytes"
    by (simp add: s_def length_LOCK_PREFIX_bytes lpk)
  have "length s - 73 = length E"
    by (simp add: s_def length_LOCK_PREFIX_bytes length_LOCK_SUFFIX_bytes lpk)
  then have u: "take (length s - 73) (drop 61 s) = E" by (simp add: d)
  have "Lock_decode s = Inr \<lparr>pkh = map uint pk, until = decodeBlockHeight (toHex E)\<rparr>"
    using Lock_decode_isLock [OF il] by (simp only: t u)
  with l il show ?thesis unfolding pk_def E_def by blast
qed

subsection \<open>The claims about the Lock template\<close>

text \<open>
  Claim C2. For every height from \<open>-(2^31 - 1)\<close> to \<open>2^31 - 1\<close>, decoding the hexadecimal
  form of the encoder's chunks gives the height back; and for every address whose base58check
  payload has 20 bytes, \<open>lock\<close> returns a script that \<open>isLock\<close> accepts and that
  \<open>Lock.decode\<close> decodes to that height.
\<close>

theorem codec_and_lock_roundtrip:
  assumes "- (2 ^ 31 - 1) \<le> h" and "h \<le> 2 ^ 31 - 1"
  shows "decodeBlockHeight (toHex (Script_toBinary (encodeBlockHeight h))) = h
     \<and> (\<forall>fromBase58Check addr pkh'.
           fromBase58Check addr = Inr pkh' \<and> length pkh' = 20 \<longrightarrow>
           (\<exists>s d. lock fromBase58Check addr h = Inr s \<and> isLock s
                  \<and> Lock_decode s = Inr d \<and> until d = h))"
proof -
  have r: "\<bar>h\<bar> < 2 ^ 31" using assms by simp
  have c: "decodeBlockHeight (toHex (Script_toBinary (encodeBlockHeight h))) = h"
    using r by (rule codec_roundtrip)
  have "\<exists>s d. lock fromBase58Check addr h = Inr s \<and> isLock s
                  \<and> Lock_decode s = Inr d \<and> until d = h"
    if "fromBase58Check addr = Inr pkh'" "length pkh' = 20" for fromBase58Check addr pkh'
  proof -
    from lock_roundtrip [of fromBase58Check addr pkh' h] that obtain s where
      s: "lock fromBase58Check addr h = Inr s" "isLock s"
         "Lock_decode s = Inr \<lparr>pkh = map uint (map word_of_int pkh' :: byte list),
              until = decodeBlockHeight (toHex (Script_toBinary (encodeBlockHeight h)))\<rparr>"
      by blast
    have "until \<lparr>pkh = map uint (map word_of_int pkh' :: byte list),
              until = decodeBlockHeight (toHex (Script_toBinary (encodeBlockHeight h)))\<rparr> = h"
      by (simp add: c)
    with s show ?thesis by blast
  qed
  with c show ?thesis by blast
qed

text \<open>
  The twelve heights of the repository's round-trip test, with the test address.
\<close>

theorem codec_and_lock_roundtrip_witness:
  "list_all (\<lambda>h. - (2 ^ 31 - 1) \<le> h \<and> h \<le> 2 ^ 31 - 1
        \<and> decodeBlockHeight (toHex (Script_toBinary (encodeBlockHeight h))) = h
        \<and> test_fromBase58Check testAddress
            = Inr [98, 233, 7, 177, 92, 191, 39, 213, 66, 83, 153, 235, 246, 240, 251, 80, 235,
                   184, 143, 24]
        \<and> (\<exists>s d. lock test_fromBase58Check testAddress h = Inr s \<and> isLock s
                  \<and> Lock_decode s = Inr d \<and> until d = h))
     [0, 1, 15, 16, 127, 128, 255, 256, 65535, 500000, 800000, 2147483647]"
proof -
  have a: "test_fromBase58Check testAddress
      = Inr [98, 233, 7, 177, 92, 191, 39, 213, 66, 83, 153, 235, 246, 240, 251, 80, 235, 184,
             143, 24]"
    by (simp add: test_fromBase58Check_def)
  have l: "length [98, 233, 7, 177, 92, 191, 39, 213, 66, 83, 153, 235, 246, 240, 251, 80, 235,
                   184, 143, 24 :: int] = 20" by simp
  have each: "- (2 ^ 31 - 1) \<le> h \<and> h \<le> 2 ^ 31 - 1
        \<and> decodeBlockHeight (toHex (Script_toBinary (encodeBlockHeight h))) = h
        \<and> test_fromBase58Check testAddress
            = Inr [98, 233, 7, 177, 92, 191, 39, 213, 66, 83, 153, 235, 246, 240, 251, 80, 235,
                   184, 143, 24]
        \<and> (\<exists>s d. lock test_fromBase58Check testAddress h = Inr s \<and> isLock s
                  \<and> Lock_decode s = Inr d \<and> until d = h)"
    if "- (2 ^ 31 - 1) \<le> h" "h \<le> 2 ^ 31 - 1" for h
    using codec_and_lock_roundtrip [OF that] a l that by blast
  show ?thesis
    unfolding list_all_iff
  proof
    fix h :: int
    assume "h \<in> set [0, 1, 15, 16, 127, 128, 255, 256, 65535, 500000, 800000, 2147483647]"
    then have "- (2 ^ 31 - 1) \<le> h" "h \<le> 2 ^ 31 - 1" by auto
    then show "- (2 ^ 31 - 1) \<le> h \<and> h \<le> 2 ^ 31 - 1
        \<and> decodeBlockHeight (toHex (Script_toBinary (encodeBlockHeight h))) = h
        \<and> test_fromBase58Check testAddress
            = Inr [98, 233, 7, 177, 92, 191, 39, 213, 66, 83, 153, 235, 246, 240, 251, 80, 235,
                   184, 143, 24]
        \<and> (\<exists>s d. lock test_fromBase58Check testAddress h = Inr s \<and> isLock s
                  \<and> Lock_decode s = Inr d \<and> until d = h)"
      by (rule each)
  qed
qed


lemma length_spec_push_payload:
  assumes "m \<noteq> []"
  shows "0 < length (spec_push_payload m neg) \<and> length (spec_push_payload m neg) \<le> length m + 1"
  using assms by (simp add: spec_push_payload_def Let_def)

text \<open>
  Claim C3, amended. The encoder yields the single opcode \<open>0x00\<close> for 0, the single opcode
  \<open>0x50 + n\<close> for \<open>n\<close> from 1 to 16 and the single opcode \<open>0x4f\<close> for -1. For any other
  \<open>n\<close> of magnitude below \<open>2^31\<close> it yields one data push, of one to five bytes, whose
  opcode is the payload length and whose payload is the minimal little-endian bytes of the
  magnitude, with one more \<open>0x00\<close> byte when the top byte has its high bit set, and the
  high bit of the final byte set when \<open>n\<close> is negative.
\<close>

theorem encodeBlockHeight_rules:
  "(n = 0 \<longrightarrow> encodeBlockHeight n = [\<lparr>op = 0x00, data = None\<rparr>])
   \<and> (1 \<le> n \<and> n \<le> 16 \<longrightarrow> encodeBlockHeight n = [\<lparr>op = 0x50 + n, data = None\<rparr>])
   \<and> (n = - 1 \<longrightarrow> encodeBlockHeight n = [\<lparr>op = 0x4f, data = None\<rparr>])
   \<and> (n \<noteq> 0 \<and> \<not> (1 \<le> n \<and> n \<le> 16) \<and> n \<noteq> - 1 \<and> \<bar>n\<bar> < 2 ^ 31 \<longrightarrow>
        (\<exists>m. is_bytes m \<and> m \<noteq> [] \<and> last m \<noteq> 0 \<and> le_value m = \<bar>n\<bar>
           \<and> 0 < length (spec_push_payload m (n < 0))
           \<and> length (spec_push_payload m (n < 0)) \<le> 5
           \<and> encodeBlockHeight n =
               [\<lparr>op = int (length (spec_push_payload m (n < 0))),
                 data = Some (spec_push_payload m (n < 0))\<rparr>]))"
proof -
  have z: "n = 0 \<longrightarrow> encodeBlockHeight n = [\<lparr>op = 0x00, data = None\<rparr>]"
    by (simp add: encodeBlockHeight_def)
  have s: "1 \<le> n \<and> n \<le> 16 \<longrightarrow> encodeBlockHeight n = [\<lparr>op = 0x50 + n, data = None\<rparr>]"
    by (simp add: encodeBlockHeight_def)
  have m: "n = - 1 \<longrightarrow> encodeBlockHeight n = [\<lparr>op = 0x4f, data = None\<rparr>]"
    by (simp add: encodeBlockHeight_def)
  have p: "\<exists>m. is_bytes m \<and> m \<noteq> [] \<and> last m \<noteq> 0 \<and> le_value m = \<bar>n\<bar>
           \<and> 0 < length (spec_push_payload m (n < 0))
           \<and> length (spec_push_payload m (n < 0)) \<le> 5
           \<and> encodeBlockHeight n =
               [\<lparr>op = int (length (spec_push_payload m (n < 0))),
                 data = Some (spec_push_payload m (n < 0))\<rparr>]"
    if h: "n \<noteq> 0" "\<not> (1 \<le> n \<and> n \<le> 16)" "n \<noteq> - 1" "\<bar>n\<bar> < 2 ^ 31"
  proof -
    let ?m = "le_bytes (nat \<bar>n\<bar>)"
    have nz: "nat \<bar>n\<bar> \<noteq> 0" using h(1) by simp
    have ne: "?m \<noteq> []" using nz by (rule le_bytes_nonempty)
    have "nat \<bar>n\<bar> < 256 ^ 4" using h(4) by (simp add: nat_less_iff)
    then have "length ?m \<le> 4" by (rule length_le_bytes_le)
    then have len: "0 < length (spec_push_payload ?m (n < 0))"
      "length (spec_push_payload ?m (n < 0)) \<le> 5"
      using length_spec_push_payload [OF ne, of "n < 0"] by simp_all
    have "is_bytes ?m" by (rule is_bytes_le_bytes)
    moreover have "last ?m \<noteq> 0" using last_le_bytes_pos [OF nz] by simp
    moreover have "le_value ?m = \<bar>n\<bar>" by (simp add: le_value_le_bytes)
    ultimately show ?thesis using ne len encodeBlockHeight_push [OF h] by blast
  qed
  from z s m p show ?thesis by blast
qed

text \<open>
  The four rules at 0, 16, -1 and -800000.
\<close>

theorem encodeBlockHeight_rules_witness:
  "encodeBlockHeight 0 = [\<lparr>op = 0x00, data = None\<rparr>]
   \<and> encodeBlockHeight 16 = [\<lparr>op = 0x60, data = None\<rparr>]
   \<and> encodeBlockHeight (- 1) = [\<lparr>op = 0x4f, data = None\<rparr>]
   \<and> (\<exists>m. is_bytes m \<and> m \<noteq> [] \<and> last m \<noteq> 0 \<and> le_value m = 800000
          \<and> encodeBlockHeight (- 800000) =
              [\<lparr>op = int (length (spec_push_payload m True)),
                data = Some (spec_push_payload m True)\<rparr>])"
  using encodeBlockHeight_rules [of 0] encodeBlockHeight_rules [of 16]
    encodeBlockHeight_rules [of "- 1"] encodeBlockHeight_rules [of "- 800000"]
  by simp blast

lemma encodeBlockHeight_loop_2p31: "encodeBlockHeight_loop 2147483648 [] = [0]"
proof -
  have a: "js_and 2147483648 0xff = 0" by (simp add: js_and_def ToInt32_def)
  have s: "js_sar 2147483648 8 = - 8388608" by (simp add: js_sar_def ToInt32_def drop_bit_eq_div)
  have "encodeBlockHeight_loop 2147483648 [] = encodeBlockHeight_loop (- 8388608) [0]"
    by (subst encodeBlockHeight_loop.simps) (simp add: a s)
  also have "\<dots> = [0]" by (subst encodeBlockHeight_loop.simps) simp
  finally show ?thesis .
qed

text \<open>
  Claim C3, as stated, fails twice. The opcode emitted for 0 is \<open>0x00\<close>, not \<open>0x50\<close>.
  And \<open>2^31\<close>, whose magnitude is the bytes 00 00 00 80, is encoded as a push of the single
  byte 00, because \<open>&\<close> and \<open>>>=\<close> work on 32-bit integers.
\<close>

theorem encodeBlockHeight_rules_counterexample:
  "encodeBlockHeight 0 = [\<lparr>op = 0x00, data = None\<rparr>]
   \<and> encodeBlockHeight 0 \<noteq> [\<lparr>op = 0x50, data = None\<rparr>]
   \<and> le_value [0, 0, 0, 0x80] = \<bar>2147483648\<bar>
   \<and> encodeBlockHeight 2147483648 = [\<lparr>op = 1, data = Some [0]\<rparr>]
   \<and> encodeBlockHeight 2147483648 \<noteq>
        [\<lparr>op = int (length (spec_push_payload [0, 0, 0, 0x80] False)),
          data = Some (spec_push_payload [0, 0, 0, 0x80] False)\<rparr>]"
proof -
  have j: "js_and 0 0x80 = 0" by (simp add: js_and_def ToInt32_def)
  have e: "encodeBlockHeight 2147483648 = [\<lparr>op = 1, data = Some [0]\<rparr>]"
    by (simp add: encodeBlockHeight_def encodeBlockHeight_loop_2p31 j)
  have p: "spec_push_payload [0, 0, 0, 0x80] False = [0, 0, 0, 0x80, 0]"
    by (simp add: spec_push_payload_def)
  show ?thesis unfolding e p by (simp add: encodeBlockHeight_def)
qed


text \<open>
  What the two functions compute on any script. \<open>isLock\<close> holds exactly when the
  script's bytes start with the 40 prefix bytes and end with the 12 suffix bytes.
  \<open>Lock.decode\<close> throws exactly when \<open>isLock\<close> fails, and the error is "Script is not a
  valid Lock script". When \<open>isLock\<close> holds it slices the hash field at offsets 41 to 60
  and decodes the height from the bytes between offset 61 and the suffix; on a script of at
  least 61 bytes the hash field has 20 bytes.
\<close>

lemma isLock_and_decode:
  "(isLock s \<longleftrightarrow> prefix LOCK_PREFIX_bytes s \<and> suffix LOCK_SUFFIX_bytes s)
   \<and> ((\<exists>e. Lock_decode s = Inl e) \<longleftrightarrow> \<not> isLock s)
   \<and> (\<not> isLock s \<longrightarrow> Lock_decode s = Inl (Error ''Script is not a valid Lock script''))
   \<and> (isLock s \<longrightarrow>
        Lock_decode s =
          Inr \<lparr>pkh = map uint (take 20 (drop 41 s)),
               until = decodeBlockHeight (toHex (take (length s - 73) (drop 61 s)))\<rparr>)
   \<and> (isLock s \<and> 61 \<le> length s \<longrightarrow> length (map uint (take 20 (drop 41 s))) = 20)"
proof -
  have a: "isLock s \<longleftrightarrow> prefix LOCK_PREFIX_bytes s \<and> suffix LOCK_SUFFIX_bytes s"
    by (rule isLock_iff)
  have c: "\<not> isLock s \<longrightarrow> Lock_decode s = Inl (Error ''Script is not a valid Lock script'')"
    by (simp add: Lock_decode_not_isLock)
  have d: "isLock s \<longrightarrow>
        Lock_decode s =
          Inr \<lparr>pkh = map uint (take 20 (drop 41 s)),
               until = decodeBlockHeight (toHex (take (length s - 73) (drop 61 s)))\<rparr>"
    by (simp add: Lock_decode_isLock)
  have b: "(\<exists>e. Lock_decode s = Inl e) \<longleftrightarrow> \<not> isLock s"
    using c d by (cases "isLock s") auto
  have e: "isLock s \<and> 61 \<le> length s \<longrightarrow> length (map uint (take 20 (drop 41 s))) = 20"
    by auto
  from a b c d e show ?thesis by blast
qed

lemma isLock_lock_800000: "isLock lock_800000"
  unfolding isLock_iff lock_800000_def by (simp add: suffix_def)

lemma decode_800000: "decodeBlockHeight (toHex [3, 0, 53, 12]) = 800000"
proof -
  have p: "is_bytes [0, 53, 12]" "[0, 53, 12 :: int] \<noteq> []" "length [0, 53, 12 :: int] \<le> 4"
    "last [0, 53, 12 :: int] < 128" "le_value [0, 53, 12] = 800000" "(800000 :: int) < 2 ^ 31"
    by (simp_all add: is_bytes_def)
  have "Script_toBinary [\<lparr>op = int (length [0, 53, 12 :: int]), data = Some [0, 53, 12]\<rparr>]
      = [3, 0, 53, 12]"
    by (simp add: Script_toBinary_def chunk_bytes_def)
  with decode_push_nonneg [OF p] show ?thesis by simp
qed

text \<open>
  The Lock script for height 800000 decodes to its hash and height; a two-byte script is
  rejected.
\<close>

lemma Lock_decode_lock_800000:
  "isLock lock_800000
   \<and> 61 \<le> length lock_800000
   \<and> Lock_decode lock_800000 =
       Inr \<lparr>pkh = [98, 233, 7, 177, 92, 191, 39, 213, 66, 83, 153, 235, 246, 240, 251, 80, 235,
                   184, 143, 24],
            until = 800000\<rparr>
   \<and> \<not> isLock [0x76, 0xa9]
   \<and> Lock_decode [0x76, 0xa9] = Inl (Error ''Script is not a valid Lock script'')"
proof -
  have n: "\<not> isLock [0x76, 0xa9]"
    unfolding isLock_iff by (simp add: LOCK_PREFIX_bytes_eq)
  have l: "length lock_800000 = 77"
    by (simp add: lock_800000_def length_LOCK_PREFIX_bytes length_LOCK_SUFFIX_bytes)
  have t: "take 20 (drop 41 lock_800000)
      = [98, 233, 7, 177, 92, 191, 39, 213, 66, 83, 153, 235, 246, 240, 251, 80, 235, 184, 143, 24]"
    by (simp add: lock_800000_def length_LOCK_PREFIX_bytes)
  have u: "take 4 (drop 61 lock_800000) = [3, 0, 53, 12]"
    by (simp add: lock_800000_def length_LOCK_PREFIX_bytes)
  show ?thesis
    using isLock_and_decode [of lock_800000] isLock_and_decode [of "[0x76, 0xa9]"]
      isLock_lock_800000 n
    by (simp add: l t u decode_800000)
qed

text \<open>
  Claim C7. The claim says what the code's own documentation says: \<open>pkh\<close> is "The public
  key hash (20 bytes)", \<open>decode\<close> "@throws Error if the script is not a valid Lock
  script", and the repository's test expects 20 bytes. The code misses it: the script made of
  the prefix directly followed by the suffix, 52 bytes with no hash and no height, passes
  \<open>isLock\<close>, and \<open>Lock.decode\<close> neither throws nor returns a 20-byte hash field. It
  returns 11 bytes cut out of the suffix, and height 0.
\<close>

theorem Lock_decode_prefix_suffix_only:
  "isLock (LOCK_PREFIX_bytes @ LOCK_SUFFIX_bytes)
   \<and> Lock_decode (LOCK_PREFIX_bytes @ LOCK_SUFFIX_bytes) =
       Inr \<lparr>pkh = [172, 126, 118, 1, 32, 127, 117, 169, 1, 20, 136], until = 0\<rparr>
   \<and> length [172, 126, 118, 1, 32, 127, 117, 169, 1, 20, 136 :: int] \<noteq> 20"
proof -
  let ?s = "LOCK_PREFIX_bytes @ LOCK_SUFFIX_bytes"
  have i: "isLock ?s" unfolding isLock_iff by (simp add: suffix_def)
  have t: "map uint (take 20 (drop 41 ?s)) = [172, 126, 118, 1, 32, 127, 117, 169, 1, 20, 136]"
    by (simp add: length_LOCK_PREFIX_bytes LOCK_SUFFIX_bytes_eq)
  have u: "take (length ?s - 73) (drop 61 ?s) = []"
    by (simp add: length_LOCK_PREFIX_bytes length_LOCK_SUFFIX_bytes)
  have z: "decodeBlockHeight (toHex []) = 0" by (simp add: decodeBlockHeight_def)
  show ?thesis using i Lock_decode_isLock [OF i] by (simp only: t u z) simp
qed

end
